theory Spec2Isabelle
  imports Complex_Main "HOL-Library.AList" "HOL-Library.Code_Target_Numeral"
begin

section \<open>Strings and untyped values\<close>

text \<open>
  A string of the program is a sequence of UTF-16 code units; the model writes it as a
  list of natural numbers, and \<open>js\<close> turns an ASCII literal into that form.
\<close>

type_synonym jstring = "nat list"

definition js :: "string \<Rightarrow> jstring" where
  "js s = map of_char s"

text \<open>White space as the regular-expression class \<^verbatim>\<open>\s\<close> and \<^verbatim>\<open>trim\<close> see it.\<close>

definition is_space :: "nat \<Rightarrow> bool" where
  "is_space c \<longleftrightarrow>
     c = 9 \<or> c = 10 \<or> c = 11 \<or> c = 12 \<or> c = 13 \<or> c = 32 \<or> c = 160 \<or> c = 5760
     \<or> (8192 \<le> c \<and> c \<le> 8202) \<or> c = 8232 \<or> c = 8233 \<or> c = 8239 \<or> c = 8287
     \<or> c = 12288 \<or> c = 65279"

text \<open>Line terminators, which the regular-expression dot does not match.\<close>

definition is_line_terminator :: "nat \<Rightarrow> bool" where
  "is_line_terminator c \<longleftrightarrow> c = 10 \<or> c = 13 \<or> c = 8232 \<or> c = 8233"

definition trim :: "jstring \<Rightarrow> jstring" where
  "trim s = rev (dropWhile is_space (rev (dropWhile is_space s)))"

text \<open>
  \<^verbatim>\<open>toLowerCase\<close>: the ASCII capitals, and the two other code units whose lower case
  contains an ASCII letter (the Kelvin sign and the dotted capital I).  The lower case of
  any other letter is outside ASCII and outside the CJK range, so no comparison made by
  the adapter can tell it from the letter itself; it is left as it is.
\<close>

definition lower_unit :: "nat \<Rightarrow> jstring" where
  "lower_unit c =
     (if 65 \<le> c \<and> c \<le> 90 then [c + 32]
      else if c = 8490 then [107]
      else if c = 304 then [105, 775]
      else [c])"

definition toLowerCase :: "jstring \<Rightarrow> jstring" where
  "toLowerCase s = concat (map lower_unit s)"

definition startsWith :: "jstring \<Rightarrow> jstring \<Rightarrow> bool" where
  "startsWith s pat \<longleftrightarrow> take (length pat) s = pat"

text \<open>\<open>split_first P s\<close> cuts \<open>s\<close> in front of its leftmost suffix that satisfies \<open>P\<close>.\<close>

fun split_first :: "(jstring \<Rightarrow> bool) \<Rightarrow> jstring \<Rightarrow> (jstring \<times> jstring) option" where
  "split_first P [] = (if P [] then Some ([], []) else None)"
| "split_first P (c # cs) =
     (if P (c # cs) then Some ([], c # cs)
      else case split_first P cs of
             None \<Rightarrow> None
           | Some (pre, suf) \<Rightarrow> Some (c # pre, suf))"

definition includes_str :: "jstring \<Rightarrow> jstring \<Rightarrow> bool" where
  "includes_str s pat \<longleftrightarrow> split_first (\<lambda>t. startsWith t pat) s \<noteq> None"

text \<open>Decimal rendering of an array index, as \<^verbatim>\<open>Object.entries\<close> names array elements.\<close>

fun index_key :: "nat \<Rightarrow> jstring" where
  "index_key n = (if n < 10 then [48 + n] else index_key (n div 10) @ [48 + n mod 10])"

text \<open>
  An untyped value (\<^verbatim>\<open>unknown\<close>).  \<open>JObj\<close> lists the own properties of an object in
  enumeration order, with distinct keys.  A number is the rational that a finite double
  denotes.
\<close>

datatype json =
    JUndefined
  | JNull
  | JBool bool
  | JNum rat
  | JStr jstring
  | JArr "json list"
  | JObj "(jstring \<times> json) list"

text \<open>Property access \<^verbatim>\<open>value.key\<close> for the named keys the adapter reads on a record.\<close>

fun field :: "json \<Rightarrow> string \<Rightarrow> json" where
  "field (JObj kvs) k = (case map_of kvs (js k) of Some v \<Rightarrow> v | None \<Rightarrow> JUndefined)"
| "field _ k = JUndefined"

fun asRecord :: "json \<Rightarrow> json" where
  "asRecord (JObj kvs) = JObj kvs"
| "asRecord (JArr xs) = JArr xs"
| "asRecord _ = JObj []"

fun asNumber :: "json \<Rightarrow> rat \<Rightarrow> rat" where
  "asNumber (JNum n) fallback = n"
| "asNumber _ fallback = fallback"

fun asString :: "json \<Rightarrow> jstring \<Rightarrow> jstring" where
  "asString (JStr s) fallback = s"
| "asString _ fallback = fallback"

text \<open>\<^verbatim>\<open>Array.isArray(v) ? v : []\<close>\<close>

fun asArray :: "json \<Rightarrow> json list" where
  "asArray (JArr xs) = xs"
| "asArray _ = []"

text \<open>\<^verbatim>\<open>Object.entries\<close> of a value that went through \<open>asRecord\<close>.\<close>

fun entries :: "json \<Rightarrow> (jstring \<times> json) list" where
  "entries (JObj kvs) = kvs"
| "entries (JArr xs) = map (\<lambda>i. (index_key i, xs ! i)) [0..<length xs]"
| "entries _ = []"

text \<open>\<^verbatim>\<open>a ?? b\<close>\<close>

fun nullish :: "json \<Rightarrow> json \<Rightarrow> json" where
  "nullish JUndefined b = b"
| "nullish JNull b = b"
| "nullish a b = a"

text \<open>\<^verbatim>\<open>a || b\<close> on strings\<close>

definition or_str :: "jstring \<Rightarrow> jstring \<Rightarrow> jstring" where
  "or_str a b = (if a \<noteq> [] then a else b)"

section \<open>Numbers and track arithmetic (legacyAdapter.ts)\<close>

text \<open>
  A number of the program is an IEEE double.  A finite double is kept as the rational it
  denotes; the result of an addition, a subtraction or a multiplication is the exact
  result rounded to the nearest double (53 significant bits, ties to even).  The exponent
  range is not bounded: overflow, subnormal numbers, \<^verbatim>\<open>NaN\<close> and the sign of zero are
  outside the model.  Quantities that the program only counts up from zero (the length of
  an array, a frame index, the sequence number of a log entry) are integers.
\<close>

fun bit_length :: "nat \<Rightarrow> nat" where
  "bit_length n = (if n = 0 then 0 else Suc (bit_length (n div 2)))"

declare bit_length.simps [simp del]

text \<open>For \<open>x > 0\<close>, the \<open>e\<close> with \<open>2 ^ e \<le> x < 2 ^ (e + 1)\<close>.\<close>

definition binary_exponent :: "rat \<Rightarrow> int" where
  "binary_exponent x =
     (if 1 \<le> x then int (bit_length (nat \<lfloor>x\<rfloor>)) - 1
      else - int (bit_length (nat (\<lceil>1 / x\<rceil> - 1))))"

definition round_half_even :: "rat \<Rightarrow> int" where
  "round_half_even q =
     (let f = \<lfloor>q\<rfloor>; r = q - of_int f
      in if r < 1 / 2 then f
         else if 1 / 2 < r then f + 1
         else if even f then f else f + 1)"

definition to_double :: "rat \<Rightarrow> rat" where
  "to_double x =
     (if x = 0 then 0
      else let u = 2 powi (binary_exponent \<bar>x\<bar> - 52)
           in sgn x * of_int (round_half_even (\<bar>x\<bar> / u)) * u)"

definition js_mul :: "rat \<Rightarrow> rat \<Rightarrow> rat" where
  "js_mul a b = to_double (a * b)"

definition js_add :: "rat \<Rightarrow> rat \<Rightarrow> rat" where
  "js_add a b = to_double (a + b)"

definition js_sub :: "rat \<Rightarrow> rat \<Rightarrow> rat" where
  "js_sub a b = to_double (a - b)"

text \<open>
  The remainder operator \<^verbatim>\<open>%\<close>: the quotient is truncated towards zero, so the result
  takes the sign of the dividend; it is exact.  The divisor is never zero where the
  adapter uses the operator.
\<close>

definition js_rem :: "rat \<Rightarrow> rat \<Rightarrow> rat" where
  "js_rem a b =
     (let q = a / b
      in a - b * of_int (if 0 \<le> q then \<lfloor>q\<rfloor> else \<lceil>q\<rceil>))"

datatype direction = forward | backward

definition wrapTrack :: "rat \<Rightarrow> rat \<Rightarrow> rat" where
  "wrapTrack position trackLength =
     (let track = max 1 trackLength
      in js_rem (js_add (js_rem position track) track) track)"

definition circularDistance :: "rat \<Rightarrow> rat \<Rightarrow> rat \<Rightarrow> rat" where
  "circularDistance from to trackLength =
     (let track = max 1 trackLength;
          a = wrapTrack from track;
          b = wrapTrack to track;
          d = \<bar>js_sub a b\<bar>
      in min d (js_sub track d))"

definition inferDirectionByPosition ::
  "rat \<Rightarrow> rat \<Rightarrow> direction \<Rightarrow> rat \<Rightarrow> rat \<Rightarrow> direction" where
  "inferDirectionByPosition fromPos toPos declared steps trackLength =
     (let track = max 1 trackLength;
          from = wrapTrack fromPos track;
          to = wrapTrack toPos track;
          fwd = js_rem (js_add (js_sub to from) track) track;
          bwd = js_rem (js_add (js_sub from to) track) track
      in if fwd = steps \<and> bwd \<noteq> steps then forward
         else if bwd = steps \<and> fwd \<noteq> steps then backward
         else let df = \<bar>js_sub fwd steps\<bar>; db = \<bar>js_sub bwd steps\<bar>
              in if df < db then forward
                 else if db < df then backward
                 else declared)"

section \<open>Message sanitisation (parseAgentMessage)\<close>

text \<open>
  A regular expression is modelled by the function that matches it at one position: given
  the rest of the text from that position, it returns the length of the match and the
  replacement.  A global replace scans the positions from left to right and skips each
  match it has replaced; a non-global replace stops after the first match.  Every
  expression below matches at least three code units, so an empty match does not arise.
\<close>

type_synonym matcher = "jstring \<Rightarrow> (nat \<times> jstring) option"

fun replace_from :: "matcher \<Rightarrow> nat \<Rightarrow> jstring \<Rightarrow> jstring" where
  "replace_from m k [] = []"
| "replace_from m (Suc k) (c # cs) = replace_from m k cs"
| "replace_from m 0 (c # cs) =
     (case m (c # cs) of
        Some (n, repl) \<Rightarrow> repl @ replace_from m (n - 1) cs
      | None \<Rightarrow> c # replace_from m 0 cs)"

definition replace_global :: "matcher \<Rightarrow> jstring \<Rightarrow> jstring" where
  "replace_global m s = replace_from m 0 s"

fun replace_first :: "matcher \<Rightarrow> jstring \<Rightarrow> jstring" where
  "replace_first m [] = []"
| "replace_first m (c # cs) =
     (case m (c # cs) of
        Some (n, repl) \<Rightarrow> repl @ drop n (c # cs)
      | None \<Rightarrow> c # replace_first m cs)"

text \<open>Three backticks; the same followed by \<^verbatim>\<open>json\<close>; the quoted key \<^verbatim>\<open>"tool_calls"\<close>.\<close>

definition fence :: jstring where
  "fence = [96, 96, 96]"

definition fence_json :: jstring where
  "fence_json = fence @ js ''json''"

definition tool_calls_key :: jstring where
  "tool_calls_key = [34] @ js ''tool_calls'' @ [34]"

text \<open>
  Matching under the flag \<^verbatim>\<open>i\<close> (without \<^verbatim>\<open>u\<close>) against a pattern in lower case: a
  code unit matches a pattern letter when it is that letter or its ASCII capital.
\<close>

definition ci_unit :: "nat \<Rightarrow> nat \<Rightarrow> bool" where
  "ci_unit c p \<longleftrightarrow> c = p \<or> (97 \<le> p \<and> p \<le> 122 \<and> c + 32 = p)"

definition startsWith_ci :: "jstring \<Rightarrow> jstring \<Rightarrow> bool" where
  "startsWith_ci s pat \<longleftrightarrow>
     length pat \<le> length s \<and> list_all2 ci_unit (take (length pat) s) pat"

text \<open>\<^verbatim>\<open>"tool_calls"\s*:\<close> at the start of \<open>t\<close>, and anywhere in \<open>s\<close>.\<close>

definition key_at :: "bool \<Rightarrow> jstring \<Rightarrow> bool" where
  "key_at ci t \<longleftrightarrow>
     (if ci then startsWith_ci t tool_calls_key else startsWith t tool_calls_key)
     \<and> (case dropWhile is_space (drop (length tool_calls_key) t) of
          [] \<Rightarrow> False
        | c # _ \<Rightarrow> c = 58)"

definition has_tool_calls :: "bool \<Rightarrow> jstring \<Rightarrow> bool" where
  "has_tool_calls ci s \<longleftrightarrow> split_first (key_at ci) s \<noteq> None"

text \<open>\<^verbatim>\<open>/```json[\s\S]*?```/gi\<close>, a block with the key replaced by nothing, any other by itself.\<close>

definition json_block :: matcher where
  "json_block t =
     (if startsWith_ci t fence_json then
        (case split_first (\<lambda>u. startsWith u fence) (drop 7 t) of
           None \<Rightarrow> None
         | Some (body, rest) \<Rightarrow>
             let n = 7 + length body + 3; block = take n t
             in Some (n, if has_tool_calls False block then [] else block))
      else None)"

text \<open>\<^verbatim>\<open>/```[\s\S]*?```/g\<close> replaced by nothing.\<close>

definition fenced_block :: matcher where
  "fenced_block t =
     (if startsWith t fence then
        (case split_first (\<lambda>u. startsWith u fence) (drop 3 t) of
           None \<Rightarrow> None
         | Some (body, rest) \<Rightarrow> Some (3 + length body + 3, []))
      else None)"

text \<open>\<^verbatim>\<open>/\n?\s*```json[\s\S]*$/gi\<close>, an unclosed block with the key replaced by nothing.\<close>

definition open_json_block :: matcher where
  "open_json_block t =
     (if startsWith_ci (dropWhile is_space t) fence_json
      then Some (length t, if has_tool_calls False t then [] else t)
      else None)"

text \<open>\<^verbatim>\<open>/\n?\s*\{[\s\S]*"tool_calls"\s*:[\s\S]*\}\s*$/i\<close> replaced by nothing.\<close>

definition trailing_tool_object :: matcher where
  "trailing_tool_object t =
     (case dropWhile is_space t of
        [] \<Rightarrow> None
      | c # body \<Rightarrow>
          if c = 123 then
            (let r = rev (dropWhile is_space (rev body))
             in if r \<noteq> [] \<and> last r = 125 \<and> has_tool_calls True (butlast r)
                then Some (length t, [])
                else None)
          else None)"

text \<open>\<^verbatim>\<open>/```+/g\<close> replaced by nothing.\<close>

definition backtick_run :: matcher where
  "backtick_run t =
     (if startsWith t fence then Some (length (takeWhile (\<lambda>c. c = 96) t), []) else None)"

definition sanitize :: "jstring \<Rightarrow> jstring" where
  "sanitize input =
     (let text1 = replace_global json_block input;
          text2 = replace_global fenced_block text1;
          text3 = replace_global open_json_block text2;
          text4 = replace_first trailing_tool_object text3;
          text5 = replace_global backtick_run text4
      in trim text5)"

text \<open>
  \<open>jsonParse\<close> stands for the platform's \<^verbatim>\<open>JSON.parse\<close>: \<open>None\<close> where it throws.
  Reading \<^verbatim>\<open>.message\<close> of a parsed \<^verbatim>\<open>null\<close> throws as well and ends in the same
  \<^verbatim>\<open>catch\<close> branch, which is what \<open>field\<close> and \<open>asString\<close> give there.
\<close>

definition parseAgentMessage :: "(jstring \<Rightarrow> json option) \<Rightarrow> jstring \<Rightarrow> jstring" where
  "parseAgentMessage jsonParse raw =
     (case jsonParse raw of
        Some parsed \<Rightarrow> sanitize (asString (field parsed ''message'') raw)
      | None \<Rightarrow> sanitize raw)"

section \<open>Data model (types.ts, legacyAdapter.ts)\<close>

text \<open>
  The records keep the field names of the source where one name serves one record.  Names
  that several types of the source share are told apart by a prefix: \<open>truck_\<close> for the
  truck, \<open>item_\<close> for an item, \<open>log_tick\<close> for a log entry, \<open>action_tick\<close> and
  \<open>action_text\<close> for the \<^verbatim>\<open>tick\<close> and \<^verbatim>\<open>message\<close> of an action, \<open>discussion_\<close> for a
  discussion, \<open>m_\<close> for the mutable player of the registry and \<open>intent_\<close> for a stored
  intent.
\<close>

record PlayerState =
  player_id :: jstring
  name :: jstring
  avatar :: "jstring option"
  position :: rat
  facing :: rat
  vote_reverse :: "bool option"
  hp :: rat
  inventory :: "(jstring \<times> rat) list"
  message :: jstring

record ItemState =
  item_id :: jstring
  item_kind :: jstring
  item_position :: rat
  ttl :: rat
  planted :: bool

record TruckState =
  truck_position :: rat
  truck_direction :: rat
  speed :: rat
  can_multi_hit :: bool

record LogEntry =
  ts :: int
  log_tick :: rat
  kind :: jstring
  payload :: json

record GameState =
  tick :: rat
  track_length :: rat
  players :: "PlayerState list"
  truck :: TruckState
  items :: "ItemState list"
  logs :: "LogEntry list"

record ReplayFrame =
  state :: GameState
  label :: jstring

record ReplayAction =
  action_tick :: rat
  agent_id :: jstring
  ai_name :: jstring
  steps :: rat
  direction :: direction
  action_text :: jstring
  discussion_message :: jstring
  action_message :: jstring
  frameIndex :: int

datatype delivery = delivery_public | delivery_private

record ReplayDiscussion =
  discussion_tick :: rat
  discussion_agent_id :: jstring
  discussion_ai_name :: jstring
  discussion_text :: jstring
  delivery :: delivery
  targets :: "jstring list"
  discussion_frameIndex :: int

record ReplayTimeline =
  frames :: "ReplayFrame list"
  actions :: "ReplayAction list"
  discussions :: "ReplayDiscussion list"

record MutablePlayer =
  m_player_id :: jstring
  m_name :: jstring
  m_avatar :: jstring
  m_position :: rat
  m_facing :: rat
  m_vote_reverse :: "bool option"
  m_hp :: rat
  m_inventory :: "(jstring \<times> rat) list"
  m_message :: jstring

text \<open>An entry of \<open>lastIntentByAgent\<close>.\<close>

record Intent =
  intent_message :: jstring
  intent_steps :: rat
  intent_direction :: direction
  intent_tick :: rat
  intent_ai_name :: jstring

definition FALLBACK_TRACK :: rat where
  "FALLBACK_TRACK = 48"

definition FALLBACK_HP :: rat where
  "FALLBACK_HP = 3"

text \<open>
  The variables that \<open>parseLegacyExport\<close> closes over.  A \<^verbatim>\<open>Map\<close> is an association
  list in insertion order (\<open>AList.update\<close> overwrites in place or appends, as
  \<^verbatim>\<open>Map.set\<close> does).  The keys \<^verbatim>\<open>`${tick}:${agentId}`\<close> of the two text maps are
  kept as pairs; the rendering of a number contains no colon, so distinct pairs are
  distinct keys.
\<close>

record ParseState =
  s_players :: "(jstring \<times> MutablePlayer) list"
  s_aiNameById :: "(jstring \<times> jstring) list"
  s_aiIdByName :: "(jstring \<times> jstring) list"
  s_avatarById :: "(jstring \<times> jstring) list"
  s_logs :: "LogEntry list"
  s_frames :: "ReplayFrame list"
  s_actions :: "ReplayAction list"
  s_discussions :: "ReplayDiscussion list"
  s_lastIntentByAgent :: "(jstring \<times> Intent) list"
  s_discussionByTurnAgent :: "((rat \<times> jstring) \<times> jstring) list"
  s_actionByTurnAgent :: "((rat \<times> jstring) \<times> jstring) list"
  s_knownPositionByAgent :: "jstring set"
  s_inferredSpawnDone :: "jstring set"
  s_tick :: rat
  s_trackLength :: rat
  s_maxHpSeen :: rat
  s_seq :: int
  s_truck :: TruckState

section \<open>Helpers of the adapter\<close>

definition compactTrackSize :: "json \<Rightarrow> rat option" where
  "compactTrackSize pl =
     (let request = asRecord (field pl ''request'');
          compactPs = asRecord (field request ''ps'');
          publicState = asRecord (field request ''public_state'');
          compactTs = asNumber (field compactPs ''ts'') 0
      in if compactTs > 0 then Some compactTs
         else let fullTs = asNumber (field publicState ''track_size'') 0
              in if fullTs > 0 then Some fullTs else None)"

text \<open>
  The result is the list of the properties of \<open>out\<close>.  The assignment
  \<^verbatim>\<open>out[id] = ...\<close> of a number to the key \<^verbatim>\<open>__proto__\<close> creates no property, so
  that key is left out.
\<close>

definition compactPlayerPositions :: "json \<Rightarrow> (jstring \<times> rat) list" where
  "compactPlayerPositions pl =
     (let request = asRecord (field pl ''request'');
          compactPs = asRecord (field request ''ps'');
          fullPublic = asRecord (field request ''public_state'');
          source = asRecord (nullish (field compactPs ''pp'') (field fullPublic ''player_positions''))
      in map (\<lambda>(id, v). (id, asNumber v 0))
           (filter (\<lambda>(id, v). id \<noteq> js ''__proto__'') (entries source)))"

text \<open>The two CJK literals of the adapter, as code units.\<close>

definition commentary_word :: jstring where
  "commentary_word = [0x89E3, 0x8BF4]"

definition commentator_name :: jstring where
  "commentator_name = [0x89E3, 0x8BF4, 0x5458]"

definition commentator_standby :: jstring where
  "commentator_standby = [0x89E3, 0x8BF4, 0x5E2D, 0x5F85, 0x547D, 0x4E2D, 46, 46, 46]"

definition isCommentatorIdentity :: "jstring \<Rightarrow> jstring \<Rightarrow> bool" where
  "isCommentatorIdentity agentId aiName =
     (let id = toLowerCase (trim agentId);
          nm = toLowerCase (trim aiName)
      in id = js ''commentator''
         \<or> startsWith id (js ''commentator'')
         \<or> includes_str nm commentary_word
         \<or> includes_str nm (js ''commentator''))"

definition parseMoveDirection :: "json \<Rightarrow> direction" where
  "parseMoveDirection raw =
     (let v = toLowerCase (trim (asString raw []))
      in if v = js ''backward'' \<or> v = js ''counterclockwise''
            \<or> v = js ''counter_clockwise'' \<or> v = js ''ccw''
         then backward else forward)"

definition direction_name :: "direction \<Rightarrow> jstring" where
  "direction_name d = (case d of forward \<Rightarrow> js ''forward'' | backward \<Rightarrow> js ''backward'')"

definition direction_sign :: "direction \<Rightarrow> rat" where
  "direction_sign d = (case d of backward \<Rightarrow> - 1 | forward \<Rightarrow> 1)"

definition clonePlayer :: "MutablePlayer \<Rightarrow> PlayerState" where
  "clonePlayer p =
     \<lparr> player_id = m_player_id p,
       name = m_name p,
       avatar = (if m_avatar p \<noteq> [] then Some (m_avatar p) else None),
       position = m_position p,
       facing = m_facing p,
       vote_reverse = m_vote_reverse p,
       hp = m_hp p,
       inventory = m_inventory p,
       message = m_message p \<rparr>"

definition cloneState ::
  "rat \<Rightarrow> rat \<Rightarrow> (jstring \<times> MutablePlayer) list \<Rightarrow> TruckState \<Rightarrow> LogEntry list \<Rightarrow> GameState" where
  "cloneState tk trackLength pls trk lgs =
     \<lparr> tick = tk,
       track_length = trackLength,
       players = map (\<lambda>(k, p). clonePlayer p) pls,
       truck = trk,
       items = [],
       logs = lgs \<rparr>"

text \<open>\<^verbatim>\<open>map.get(key) ?? fallback\<close>\<close>

definition get_or :: "('k \<times> 'v) list \<Rightarrow> 'k \<Rightarrow> 'v \<Rightarrow> 'v" where
  "get_or m k fallback = (case map_of m k of Some v \<Rightarrow> v | None \<Rightarrow> fallback)"

text \<open>\<^verbatim>\<open>xs[i]\<close>, which is \<^verbatim>\<open>undefined\<close> out of range.\<close>

definition element :: "json list \<Rightarrow> nat \<Rightarrow> json" where
  "element xs i = (if i < length xs then xs ! i else JUndefined)"

text \<open>Assignment to a field of the first element that \<^verbatim>\<open>find\<close> returns.\<close>

fun update_first :: "('a \<Rightarrow> bool) \<Rightarrow> ('a \<Rightarrow> 'a) \<Rightarrow> 'a list \<Rightarrow> 'a list" where
  "update_first P f [] = []"
| "update_first P f (x # xs) = (if P x then f x # xs else x # update_first P f xs)"

definition initialState :: ParseState where
  "initialState =
     \<lparr> s_players = [], s_aiNameById = [], s_aiIdByName = [], s_avatarById = [],
       s_logs = [], s_frames = [], s_actions = [], s_discussions = [],
       s_lastIntentByAgent = [], s_discussionByTurnAgent = [], s_actionByTurnAgent = [],
       s_knownPositionByAgent = {}, s_inferredSpawnDone = {},
       s_tick = 0, s_trackLength = FALLBACK_TRACK, s_maxHpSeen = FALLBACK_HP, s_seq = 0,
       s_truck = \<lparr> truck_position = 0, truck_direction = 1, speed = 1, can_multi_hit = False \<rparr> \<rparr>"

text \<open>\<^verbatim>\<open>if (player.hp === FALLBACK_HP) player.hp = nextMaxHp\<close>, on a frame's players.\<close>

definition upgradeFramePlayer :: "rat \<Rightarrow> PlayerState \<Rightarrow> PlayerState" where
  "upgradeFramePlayer nextMaxHp p = (if hp p = FALLBACK_HP then p\<lparr>hp := nextMaxHp\<rparr> else p)"

definition upgradeFrame :: "rat \<Rightarrow> ReplayFrame \<Rightarrow> ReplayFrame" where
  "upgradeFrame nextMaxHp f =
     f\<lparr>state := (state f)\<lparr>players := map (upgradeFramePlayer nextMaxHp) (players (state f))\<rparr>\<rparr>"

definition upgradePlayer :: "rat \<Rightarrow> MutablePlayer \<Rightarrow> MutablePlayer" where
  "upgradePlayer nextMaxHp p = (if m_hp p = FALLBACK_HP then p\<lparr>m_hp := nextMaxHp\<rparr> else p)"

definition backfillFallbackHp :: "rat \<Rightarrow> ParseState \<Rightarrow> ParseState" where
  "backfillFallbackHp nextMaxHp st =
     (if \<not> (nextMaxHp > s_maxHpSeen st) then st
      else st\<lparr> s_maxHpSeen := nextMaxHp,
               s_players := map (\<lambda>(k, p). (k, upgradePlayer nextMaxHp p)) (s_players st),
               s_frames := map (upgradeFrame nextMaxHp) (s_frames st) \<rparr>)"

definition ensurePlayer :: "jstring \<Rightarrow> jstring \<Rightarrow> jstring \<Rightarrow> ParseState \<Rightarrow> ParseState" where
  "ensurePlayer agentId aiName avatarArg st =
     (let st1 =
            (if map_of (s_players st) agentId = None then
               st\<lparr>s_players := AList.update agentId
                     \<lparr> m_player_id = agentId,
                       m_name = or_str aiName agentId,
                       m_avatar = or_str avatarArg [],
                       m_position = 0,
                       m_facing = 1,
                       m_vote_reverse = None,
                       m_hp = s_maxHpSeen st,
                       m_inventory = [],
                       m_message = [] \<rparr> (s_players st)\<rparr>
             else if aiName \<noteq> [] then
               st\<lparr>s_players := AList.map_entry agentId (\<lambda>c. c\<lparr>m_name := aiName\<rparr>) (s_players st)\<rparr>
             else st);
          st2 =
            (if avatarArg \<noteq> [] then
               st1\<lparr>s_players := AList.map_entry agentId (\<lambda>c. c\<lparr>m_avatar := avatarArg\<rparr>) (s_players st1),
                    s_avatarById := AList.update agentId avatarArg (s_avatarById st1)\<rparr>
             else st1)
      in if aiName \<noteq> [] then
           st2\<lparr>s_aiNameById := AList.update agentId aiName (s_aiNameById st2),
                s_aiIdByName := AList.update aiName agentId (s_aiIdByName st2)\<rparr>
         else st2)"

definition ensureCommentatorExists :: "ParseState \<Rightarrow> ParseState" where
  "ensureCommentatorExists st =
     (if list_ex (\<lambda>(k, p). isCommentatorIdentity (m_player_id p) (m_name p)) (s_players st) then st
      else let st1 = ensurePlayer (js ''commentator'') commentator_name [] st
           in st1\<lparr>s_players := AList.map_entry (js ''commentator'')
                    (\<lambda>c. c\<lparr> m_position := 0,
                            m_facing := 1,
                            m_hp := max (m_hp c) (s_maxHpSeen st1),
                            m_message := or_str (m_message c) commentator_standby \<rparr>)
                    (s_players st1)\<rparr>)"

text \<open>The body of the loop over \<^verbatim>\<open>agent_metadata\<close>.\<close>

definition seedPlayer :: "json \<Rightarrow> ParseState \<Rightarrow> ParseState" where
  "seedPlayer item st =
     (let row = asRecord item;
          agentId = asString (field row ''agent_id'') []
      in if agentId = [] then st
         else ensurePlayer agentId (asString (field row ''ai_name'') agentId)
                (asString (field row ''avatar'') []) st)"

definition pushLog :: "jstring \<Rightarrow> json \<Rightarrow> ParseState \<Rightarrow> ParseState" where
  "pushLog knd pl st =
     (let lg = s_logs st @ [\<lparr> ts = s_seq st, log_tick = s_tick st, kind = knd, payload = pl \<rparr>]
      in st\<lparr> s_logs := (if length lg > 120 then drop (length lg - 120) lg else lg),
              s_seq := s_seq st + 1 \<rparr>)"

definition pushFrame :: "jstring \<Rightarrow> ParseState \<Rightarrow> ParseState" where
  "pushFrame lbl st =
     st\<lparr>s_frames := s_frames st @
          [\<lparr> state = cloneState (s_tick st) (s_trackLength st) (s_players st) (s_truck st) (s_logs st),
             label = lbl \<rparr>]\<rparr>"

text \<open>The three assignments to \<^verbatim>\<open>truck\<close> that \<^verbatim>\<open>game_started\<close> and \<^verbatim>\<open>truck_moved\<close> share,
  the position given by the caller.\<close>

definition updateTruck :: "rat \<Rightarrow> json \<Rightarrow> TruckState \<Rightarrow> TruckState" where
  "updateTruck pos pl trk =
     trk\<lparr> truck_position := pos,
           truck_direction := (if asNumber (field pl ''truck_direction'') (truck_direction trk) \<ge> 0
                                then 1 else - 1),
           speed := max 1 (asNumber (field pl ''truck_rage'') (speed trk)) \<rparr>"

definition on_game_started :: "json \<Rightarrow> ParseState \<Rightarrow> ParseState" where
  "on_game_started pl st =
     (let ids = asArray (field pl ''alive_agents'');
          names = asArray (field pl ''alive_ai_names'');
          st1 = fold (\<lambda>(idx, id) s.
                   let agentId = asString id []
                   in ensurePlayer agentId (asString (element names idx) agentId)
                        (get_or (s_avatarById s) agentId []) s)
                 (List.enumerate 0 ids) st;
          trk = s_truck st1
      in pushFrame (js ''game_started'')
           (st1\<lparr>s_truck := updateTruck (asNumber (field pl ''truck_position'') (truck_position trk)) pl trk\<rparr>))"

text \<open>The branch of \<^verbatim>\<open>agent_interaction\<close> for the three response events, entered with a
  non-empty \<open>agentId\<close>, up to the recording of the intent.\<close>

definition recordResponse ::
  "(jstring \<Rightarrow> json option) \<Rightarrow> jstring \<Rightarrow> json \<Rightarrow> jstring \<Rightarrow> jstring \<Rightarrow> ParseState \<Rightarrow> ParseState" where
  "recordResponse jsonParse event pl agentId aiName st =
     (let txt = parseAgentMessage jsonParse (asString (field pl ''message'') []);
          st1 =
            (case map_of (s_players st) agentId of
               None \<Rightarrow> st
             | Some player \<Rightarrow>
                 let sa = st\<lparr>s_players := AList.map_entry agentId (\<lambda>c. c\<lparr>m_message := txt\<rparr>) (s_players st)\<rparr>
                 in if event \<noteq> js ''commentator_response'' then
                      pushLog
                        (if isCommentatorIdentity agentId (or_str aiName agentId)
                         then js ''commentary'' else js ''player_speak'')
                        (JObj [(js ''player_id'', JStr agentId), (js ''text'', JStr txt),
                               (js ''source'', JStr (js ''agent_interaction''))])
                        sa
                    else sa);
          st2 =
            (if event = js ''discussion_response'' \<and> txt \<noteq> [] then
               st1\<lparr>s_discussionByTurnAgent :=
                     AList.update (s_tick st1, agentId) txt (s_discussionByTurnAgent st1)\<rparr>
             else st1);
          st3 =
            (if event = js ''agent_response'' \<and> txt \<noteq> [] then
               st2\<lparr>s_actionByTurnAgent :=
                     AList.update (s_tick st2, agentId) txt (s_actionByTurnAgent st2)\<rparr>
             else st2)
      in st3\<lparr>s_lastIntentByAgent :=
             AList.update agentId
               \<lparr> intent_message = txt,
                 intent_steps = asNumber (field pl ''steps'') 0,
                 intent_direction = parseMoveDirection (field pl ''direction''),
                 intent_tick = s_tick st3,
                 intent_ai_name = or_str aiName agentId \<rparr>
               (s_lastIntentByAgent st3)\<rparr>)"

definition on_agent_interaction ::
  "(jstring \<Rightarrow> json option) \<Rightarrow> jstring \<Rightarrow> json \<Rightarrow> ParseState \<Rightarrow> ParseState" where
  "on_agent_interaction jsonParse event pl st =
     (let agentId = asString (field pl ''agent_id'') [];
          aiName = asString (field pl ''ai_name'') [];
          avatarArg = asString (field pl ''avatar'') (get_or (s_avatarById st) agentId []);
          st1 = (if agentId \<noteq> [] then ensurePlayer agentId aiName avatarArg st else st);
          st2 = fold (\<lambda>pid s. ensurePlayer pid (get_or (s_aiNameById s) pid pid)
                                  (get_or (s_avatarById s) pid []) s)
                  (map fst (compactPlayerPositions pl)) st1
      in if event = js ''discussion_response'' \<or> event = js ''agent_response''
            \<or> event = js ''commentator_response'' then
           (let st3 = (if agentId \<noteq> [] then recordResponse jsonParse event pl agentId aiName st2
                       else st2);
                st4 = pushFrame event st3
            in if event = js ''discussion_response'' \<and> agentId \<noteq> [] then
                 st4\<lparr>s_discussions := s_discussions st4 @
                      [\<lparr> discussion_tick = s_tick st4,
                         discussion_agent_id = agentId,
                         discussion_ai_name = or_str aiName agentId,
                         discussion_text =
                           parseAgentMessage jsonParse (asString (field pl ''message'') []),
                         delivery =
                           (if asString (field pl ''delivery'') [] = js ''private''
                            then delivery_private else delivery_public),
                         targets =
                           filter (\<lambda>x. length x > 0)
                             (map (\<lambda>x. asString x []) (asArray (field pl ''targets''))),
                         discussion_frameIndex = int (length (s_frames st4)) - 1 \<rparr>]\<rparr>
               else st4)
         else st2)"

text \<open>\<^verbatim>\<open>Math.max(1, asNumber(payload.steps, intent?.steps ?? 1))\<close>\<close>

definition moveSteps :: "json \<Rightarrow> Intent option \<Rightarrow> rat" where
  "moveSteps pl intent =
     max 1 (asNumber (field pl ''steps'')
              (case intent of Some i \<Rightarrow> intent_steps i | None \<Rightarrow> 1))"

text \<open>The first-move branch of \<^verbatim>\<open>player_moved\<close>: the spawn position is written to the
  player and, once per agent, to the agent's entry in every frame emitted so far.\<close>

definition patchSpawn :: "jstring \<Rightarrow> rat \<Rightarrow> rat \<Rightarrow> ReplayFrame \<Rightarrow> ReplayFrame" where
  "patchSpawn agentId inferredSpawn declaredSign f =
     f\<lparr>state := (state f)\<lparr>players :=
         update_first (\<lambda>p. player_id p = agentId)
           (\<lambda>fp. fp\<lparr>position := inferredSpawn, facing := declaredSign\<rparr>)
           (players (state f))\<rparr>\<rparr>"

definition backfillSpawn :: "jstring \<Rightarrow> rat \<Rightarrow> rat \<Rightarrow> ParseState \<Rightarrow> ParseState" where
  "backfillSpawn agentId inferredSpawn declaredSign st =
     (let st1 = st\<lparr>s_players :=
                   AList.map_entry agentId (\<lambda>c. c\<lparr>m_position := inferredSpawn\<rparr>) (s_players st)\<rparr>;
          st2 =
            (if agentId \<notin> s_inferredSpawnDone st1 then
               st1\<lparr>s_frames := map (patchSpawn agentId inferredSpawn declaredSign) (s_frames st1),
                    s_inferredSpawnDone := insert agentId (s_inferredSpawnDone st1)\<rparr>
             else st1)
      in st2\<lparr>s_knownPositionByAgent := insert agentId (s_knownPositionByAgent st2)\<rparr>)"

text \<open>The body of \<^verbatim>\<open>if (player)\<close> in \<^verbatim>\<open>player_moved\<close>.\<close>

definition movePlayer :: "json \<Rightarrow> jstring \<Rightarrow> MutablePlayer \<Rightarrow> ParseState \<Rightarrow> ParseState" where
  "movePlayer pl agentId player st =
     (let declaredDirection = parseMoveDirection (field pl ''direction'');
          declaredSign = direction_sign declaredDirection;
          intent = map_of (s_lastIntentByAgent st) agentId;
          stepCount = moveSteps pl intent;
          hasPosition = (case field pl ''position'' of JNum n \<Rightarrow> True | _ \<Rightarrow> False);
          movedTo =
            (if hasPosition
             then wrapTrack (asNumber (field pl ''position'') (m_position player)) (s_trackLength st)
             else wrapTrack (js_add (m_position player) (js_mul declaredSign stepCount))
                    (s_trackLength st));
          known = (agentId \<in> s_knownPositionByAgent st);
          inferredSpawn =
            wrapTrack (js_sub movedTo (js_mul declaredSign stepCount)) (s_trackLength st);
          basePos = (if known then m_position player else inferredSpawn);
          st1 = (if known then st else backfillSpawn agentId inferredSpawn declaredSign st);
          resolvedDirection =
            inferDirectionByPosition basePos movedTo declaredDirection stepCount (s_trackLength st1);
          st2 = st1\<lparr>s_players :=
                  AList.map_entry agentId
                    (\<lambda>c. c\<lparr> m_position := movedTo,
                            m_facing := (if resolvedDirection = backward then - 1 else 1),
                            m_vote_reverse :=
                              (case field pl ''vote_reverse'' of JBool b \<Rightarrow> Some b | _ \<Rightarrow> None) \<rparr>)
                    (s_players st1)\<rparr>;
          lives = asNumber (field pl ''lives'') (m_hp player);
          st3 = backfillFallbackHp lives st2
      in st3\<lparr>s_players := AList.map_entry agentId (\<lambda>c. c\<lparr>m_hp := lives\<rparr>) (s_players st3)\<rparr>)"

text \<open>The \<open>ReplayAction\<close> that \<^verbatim>\<open>player_moved\<close> appends after its frame was pushed.  The
  source's fields \<^verbatim>\<open>tick\<close> and \<^verbatim>\<open>message\<close> are \<open>action_tick\<close> and \<open>action_text\<close> here.\<close>

definition moveAction :: "json \<Rightarrow> jstring \<Rightarrow> jstring \<Rightarrow> ParseState \<Rightarrow> ReplayAction" where
  "moveAction pl agentId aiName st =
     (let n = length (s_frames st);
          frameIdx = int n - 1;
          intent = map_of (s_lastIntentByAgent st) agentId;
          discussionText = get_or (s_discussionByTurnAgent st) (s_tick st, agentId) [];
          actionText = get_or (s_actionByTurnAgent st) (s_tick st, agentId) [];
          prevState = (if n > 1 then Some (state (s_frames st ! (n - 2))) else None);
          movedPlayer =
            (if n > 0 then find (\<lambda>p. player_id p = agentId) (players (state (s_frames st ! (n - 1))))
             else None);
          prevPlayer =
            (case prevState of
               None \<Rightarrow> None
             | Some ps \<Rightarrow> find (\<lambda>p. player_id p = agentId) (players ps));
          declared =
            parseMoveDirection
              (JStr (asString (field pl ''direction'')
                       (case intent of
                          Some i \<Rightarrow> direction_name (intent_direction i)
                        | None \<Rightarrow> js ''forward'')));
          inferredDirection =
            (case (movedPlayer, prevPlayer) of
               (Some mp, Some pp) \<Rightarrow>
                 inferDirectionByPosition (position pp) (position mp) declared (moveSteps pl intent)
                   (if n > 0 then track_length (state (s_frames st ! (n - 1))) else s_trackLength st)
             | _ \<Rightarrow> declared);
          intentMessage = (case intent of Some i \<Rightarrow> intent_message i | None \<Rightarrow> []);
          intentName = (case intent of Some i \<Rightarrow> intent_ai_name i | None \<Rightarrow> []);
          playerMessage = (case map_of (s_players st) agentId of Some p \<Rightarrow> m_message p | None \<Rightarrow> [])
      in \<lparr> action_tick = s_tick st,
           agent_id = agentId,
           ai_name = or_str aiName (or_str intentName agentId),
           steps = moveSteps pl intent,
           direction = inferredDirection,
           action_text = or_str actionText (or_str discussionText (or_str intentMessage (or_str playerMessage []))),
           discussion_message = discussionText,
           action_message = or_str actionText (or_str intentMessage (or_str playerMessage [])),
           frameIndex = frameIdx \<rparr>)"

definition on_player_moved :: "json \<Rightarrow> ParseState \<Rightarrow> ParseState" where
  "on_player_moved pl st =
     (let agentId = asString (field pl ''agent_id'') [];
          aiName = asString (field pl ''ai_name'') agentId;
          st1 = ensurePlayer agentId aiName
                  (asString (field pl ''avatar'') (get_or (s_avatarById st) agentId [])) st;
          st2 = (case map_of (s_players st1) agentId of
                   None \<Rightarrow> st1
                 | Some player \<Rightarrow> movePlayer pl agentId player st1);
          st3 = pushFrame (js ''player_moved'') st2
      in st3\<lparr>s_actions := s_actions st3 @ [moveAction pl agentId aiName st3]\<rparr>)"

definition on_player_hit :: "json \<Rightarrow> ParseState \<Rightarrow> ParseState" where
  "on_player_hit pl st =
     (let agentId = asString (field pl ''agent_id'') [];
          aiName = asString (field pl ''ai_name'') agentId;
          st1 = ensurePlayer agentId aiName
                  (asString (field pl ''avatar'') (get_or (s_avatarById st) agentId [])) st;
          st2 =
            (case map_of (s_players st1) agentId of
               None \<Rightarrow> st1
             | Some player \<Rightarrow>
                 let lives = asNumber (field pl ''lives'') (m_hp player);
                     sa = backfillFallbackHp lives st1;
                     sb = sa\<lparr>s_players := AList.map_entry agentId (\<lambda>c. c\<lparr>m_hp := lives\<rparr>) (s_players sa)\<rparr>
                 in (case field pl ''respawned_position'' of
                       JNum respawn \<Rightarrow>
                         sb\<lparr>s_players :=
                              AList.map_entry agentId
                                (\<lambda>c. c\<lparr>m_position := wrapTrack respawn (s_trackLength sb)\<rparr>) (s_players sb),
                            s_knownPositionByAgent := insert agentId (s_knownPositionByAgent sb)\<rparr>
                     | _ \<Rightarrow> sb))
      in pushFrame (js ''player_hit'') st2)"

definition on_truck_moved :: "json \<Rightarrow> ParseState \<Rightarrow> ParseState" where
  "on_truck_moved pl st =
     (let trk = s_truck st
      in pushFrame (js ''truck_moved'')
           (st\<lparr>s_truck :=
               updateTruck
                 (wrapTrack (asNumber (field pl ''truck_position'') (truck_position trk)) (s_trackLength st))
                 pl trk\<rparr>))"

definition on_commentator_broadcast ::
  "(jstring \<Rightarrow> json option) \<Rightarrow> json \<Rightarrow> ParseState \<Rightarrow> ParseState" where
  "on_commentator_broadcast jsonParse pl st =
     (let agentId = asString (field pl ''agent_id'') (js ''commentator'');
          aiName = asString (field pl ''ai_name'') (or_str agentId commentator_name);
          avatarArg = asString (field pl ''avatar'') (get_or (s_avatarById st) agentId []);
          st1 = ensurePlayer (or_str agentId (js ''commentator'')) aiName avatarArg st;
          msg = parseAgentMessage jsonParse (asString (field pl ''text'') []);
          st2 = st1\<lparr>s_players :=
                  AList.map_entry (or_str agentId (js ''commentator''))
                    (\<lambda>c. c\<lparr>m_message := msg\<rparr>) (s_players st1)\<rparr>;
          st3 = pushLog (js ''commentary'')
                  (JObj [(js ''player_id'', JStr (or_str agentId (js ''commentator''))),
                         (js ''ai_name'', JStr aiName), (js ''text'', JStr msg),
                         (js ''source'', JStr (js ''structured''))])
                  st2
      in pushFrame (js ''commentator_broadcast'') st3)"

section \<open>Speaker tags of a public broadcast\<close>

text \<open>\<^verbatim>\<open>\[([^\]]+)\]\<close> at the start of \<open>t\<close>: the bracketed text and what follows.\<close>

definition bracket_group :: "jstring \<Rightarrow> (jstring \<times> jstring) option" where
  "bracket_group t =
     (case t of
        [] \<Rightarrow> None
      | c # r \<Rightarrow>
          if c = 91 then
            (let inner = takeWhile (\<lambda>d. d \<noteq> 93) r;
                 rest = dropWhile (\<lambda>d. d \<noteq> 93) r
             in if inner \<noteq> [] \<and> rest \<noteq> [] then Some (inner, tl rest) else None)
          else None)"

text \<open>\<^verbatim>\<open>\s*([\s\S]+)$\<close>: the greedy white space gives one code unit back when nothing else
  is left for the group.\<close>

definition tail_any :: "jstring \<Rightarrow> jstring option" where
  "tail_any r =
     (if r = [] then None
      else let x = dropWhile is_space r in Some (if x \<noteq> [] then x else [last r]))"

text \<open>\<^verbatim>\<open>\s*(.+)$\<close>: the group cannot cross a line terminator.\<close>

definition tail_line :: "jstring \<Rightarrow> jstring option" where
  "tail_line r =
     (let x = dropWhile is_space r
      in if x \<noteq> [] then (if list_ex is_line_terminator x then None else Some x)
         else if r \<noteq> [] \<and> \<not> is_line_terminator (last r) then Some [last r]
         else None)"

text \<open>The tag, the bracketed speaker and the tail, at the start of \<open>t\<close>.\<close>

definition tagged_at ::
  "jstring \<Rightarrow> (jstring \<Rightarrow> jstring option) \<Rightarrow> jstring \<Rightarrow> (jstring \<times> jstring) option" where
  "tagged_at tag tail t =
     (if startsWith t tag then
        (case bracket_group (drop (length tag) t) of
           None \<Rightarrow> None
         | Some (speaker, rest) \<Rightarrow>
             (case tail rest of None \<Rightarrow> None | Some body \<Rightarrow> Some (speaker, body)))
      else None)"

fun first_match :: "(jstring \<Rightarrow> 'a option) \<Rightarrow> jstring \<Rightarrow> 'a option" where
  "first_match f [] = f []"
| "first_match f (c # cs) = (case f (c # cs) of Some r \<Rightarrow> Some r | None \<Rightarrow> first_match f cs)"

text \<open>
  \<^verbatim>\<open>/(?:^\[[^\]]+\])*TAG\[([^\]]+)\]TAIL$/u.exec(text)\<close>: at position 0 the anchored
  prefix group is tried once before the tag, then not at all; at later positions the
  group cannot match.
\<close>

definition exec_tagged ::
  "jstring \<Rightarrow> (jstring \<Rightarrow> jstring option) \<Rightarrow> jstring \<Rightarrow> (jstring \<times> jstring) option" where
  "exec_tagged tag tail s =
     (case (case bracket_group s of
              None \<Rightarrow> None
            | Some (inner, rest) \<Rightarrow> tagged_at tag tail rest) of
        Some r \<Rightarrow> Some r
      | None \<Rightarrow> first_match (tagged_at tag tail) s)"

section \<open>The event loop and the repair pass (parseLegacyExport)\<close>

text \<open>A broadcast whose tag matched: the speaker is looked up by name, stored and logged.\<close>

definition routeBroadcast ::
  "(jstring \<Rightarrow> json option) \<Rightarrow> jstring \<Rightarrow> jstring \<Rightarrow> (jstring \<times> json) list
     \<Rightarrow> jstring \<Rightarrow> jstring \<Rightarrow> ParseState \<Rightarrow> ParseState" where
  "routeBroadcast jsonParse knd fallbackId extra aiName body st =
     (let agentId = get_or (s_aiIdByName st) aiName fallbackId;
          st1 = ensurePlayer agentId aiName (get_or (s_avatarById st) agentId []) st;
          msg = parseAgentMessage jsonParse body;
          st2 = st1\<lparr>s_players := AList.map_entry agentId (\<lambda>c. c\<lparr>m_message := msg\<rparr>) (s_players st1)\<rparr>
      in pushLog knd (JObj ([(js ''player_id'', JStr agentId), (js ''text'', JStr msg)] @ extra)) st2)"

definition systemChatter :: "jstring \<Rightarrow> ParseState \<Rightarrow> ParseState" where
  "systemChatter txt st =
     pushLog (js ''discussion'') (JObj [(js ''player_id'', JStr (js ''system'')), (js ''text'', JStr txt)]) st"

definition on_public_broadcast ::
  "(jstring \<Rightarrow> json option) \<Rightarrow> json \<Rightarrow> ParseState \<Rightarrow> ParseState" where
  "on_public_broadcast jsonParse pl st =
     (let txt = asString (field pl ''text'') [];
          st1 =
            (if includes_str txt (js ''[COMMENTATOR]['') then
               (case exec_tagged (js ''[COMMENTATOR]'') tail_any txt of
                  Some (aiName, body) \<Rightarrow>
                    routeBroadcast jsonParse (js ''commentary'') (js ''commentator'')
                      [(js ''source'', JStr (js ''broadcast''))] aiName body st
                | None \<Rightarrow> systemChatter txt st)
             else if includes_str txt (js ''[DISCUSS]['') then
               (case exec_tagged (js ''[DISCUSS]'') tail_line txt of
                  Some (aiName, body) \<Rightarrow>
                    routeBroadcast jsonParse (js ''discussion'') aiName [] aiName body st
                | None \<Rightarrow> systemChatter txt st)
             else systemChatter txt st)
      in pushFrame (js ''public_broadcast'') st1)"

text \<open>One iteration of the loop over \<^verbatim>\<open>coreMessages\<close>, for a message that is neither
  \<^verbatim>\<open>null\<close> nor \<^verbatim>\<open>undefined\<close>.\<close>

definition processMessage :: "(jstring \<Rightarrow> json option) \<Rightarrow> json \<Rightarrow> ParseState \<Rightarrow> ParseState" where
  "processMessage jsonParse msg st =
     (let messageTurn = asNumber (field msg ''turn'') (s_tick st);
          st0 = st\<lparr>s_tick := max (s_tick st) messageTurn\<rparr>;
          event = asString (field msg ''event'') [];
          pl = asRecord (field msg ''payload'');
          messageType = asString (field msg ''message_type'') [];
          st1 = (case compactTrackSize pl of
                   Some maybeTrackSize \<Rightarrow>
                     if maybeTrackSize > 0 then st0\<lparr>s_trackLength := maybeTrackSize\<rparr> else st0
                 | None \<Rightarrow> st0)
      in if event = js ''game_started'' then on_game_started pl st1
         else if messageType = js ''agent_interaction'' then on_agent_interaction jsonParse event pl st1
         else if event = js ''player_moved'' then on_player_moved pl st1
         else if event = js ''player_hit'' then on_player_hit pl st1
         else if event = js ''truck_moved'' then on_truck_moved pl st1
         else if event = js ''commentator_broadcast'' then on_commentator_broadcast jsonParse pl st1
         else if event = js ''public_broadcast'' then on_public_broadcast jsonParse pl st1
         else if event = js ''turn_finished'' \<or> event = js ''turn_started'' then pushFrame event st1
         else st1)"

text \<open>The loop.  Reading \<^verbatim>\<open>message.turn\<close> of a \<^verbatim>\<open>null\<close> or \<^verbatim>\<open>undefined\<close> element throws
  a \<^verbatim>\<open>TypeError\<close>, which nothing catches: the result is \<open>None\<close>.\<close>

fun processMessages ::
  "(jstring \<Rightarrow> json option) \<Rightarrow> json list \<Rightarrow> ParseState \<Rightarrow> ParseState option" where
  "processMessages jsonParse [] st = Some st"
| "processMessages jsonParse (msg # rest) st =
     (if msg = JNull \<or> msg = JUndefined then None
      else processMessages jsonParse rest (processMessage jsonParse msg st))"

text \<open>The clamp of the registry after the loop.\<close>

definition clampPlayers :: "ParseState \<Rightarrow> ParseState" where
  "clampPlayers st =
     st\<lparr>s_players :=
          map (\<lambda>(k, p). (k, p\<lparr>m_hp := max 0 (min (s_maxHpSeen st) (m_hp p))\<rparr>)) (s_players st)\<rparr>"

text \<open>\<^verbatim>\<open>new Map(xs.map(x => [key(x), x])).get(k)\<close>: the last entry with the key.\<close>

definition lastWith :: "('a \<Rightarrow> 'k) \<Rightarrow> 'a list \<Rightarrow> 'k \<Rightarrow> 'a option" where
  "lastWith key xs k = find (\<lambda>x. key x = k) (rev xs)"

text \<open>The body of the loop over \<^verbatim>\<open>curr.state.players\<close> in the repair pass.\<close>

definition repairPlayer ::
  "PlayerState list \<Rightarrow> jstring \<Rightarrow> rat \<Rightarrow> ReplayAction option \<Rightarrow> PlayerState \<Rightarrow> PlayerState" where
  "repairPlayer prevPlayers currLabel currTrack movedAction player =
     (case lastWith player_id prevPlayers (player_id player) of
        None \<Rightarrow> player
      | Some prevPlayer \<Rightarrow>
          let hpDropped = (hp player < hp prevPlayer)
          in if currLabel = js ''player_hit'' \<and> hpDropped then player
             else (case (case movedAction of
                           None \<Rightarrow> None
                         | Some a \<Rightarrow> if agent_id a = player_id player then Some a else None) of
                     Some a \<Rightarrow>
                       let expected =
                             wrapTrack
                               (js_add (position prevPlayer)
                                  (js_mul (if direction a = backward then - 1 else 1) (max 1 (steps a))))
                               currTrack;
                           jump = circularDistance (position prevPlayer) (position player) currTrack
                       in if jump = 0 \<or> jump > max 2 (js_add (steps a) 2)
                          then player\<lparr>position := expected\<rparr> else player
                   | None \<Rightarrow>
                       let jump = circularDistance (position prevPlayer) (position player) currTrack
                       in if jump > 2 then player\<lparr>position := position prevPlayer\<rparr> else player))"

definition repairFrame :: "ReplayAction list \<Rightarrow> nat \<Rightarrow> ReplayFrame \<Rightarrow> ReplayFrame \<Rightarrow> ReplayFrame" where
  "repairFrame acts i prev cur =
     cur\<lparr>state := (state cur)\<lparr>players :=
         map (repairPlayer (players (state prev)) (label cur) (track_length (state cur))
                (lastWith frameIndex acts (int i)))
           (players (state cur))\<rparr>\<rparr>"

text \<open>The loop \<^verbatim>\<open>for (let i = 1; i < frames.length; i += 1)\<close>: \<open>prev\<close> is the frame at
  \<open>i - 1\<close> as the pass left it.\<close>

fun repairFrom :: "ReplayAction list \<Rightarrow> nat \<Rightarrow> ReplayFrame \<Rightarrow> ReplayFrame list \<Rightarrow> ReplayFrame list" where
  "repairFrom acts i prev [] = []"
| "repairFrom acts i prev (cur # rest) =
     (let cur' = repairFrame acts i prev cur
      in cur' # repairFrom acts (Suc i) cur' rest)"

definition repairPass :: "ReplayAction list \<Rightarrow> ReplayFrame list \<Rightarrow> ReplayFrame list" where
  "repairPass acts fs = (case fs of [] \<Rightarrow> [] | f # rest \<Rightarrow> f # repairFrom acts 1 f rest)"

definition emptyTimeline :: ReplayTimeline where
  "emptyTimeline = \<lparr> frames = [], actions = [], discussions = [] \<rparr>"

text \<open>The state when the loop is entered, and the whole function.\<close>

definition seededState :: "json \<Rightarrow> ParseState" where
  "seededState envelope =
     ensureCommentatorExists (fold seedPlayer (asArray (field envelope ''agent_metadata'')) initialState)"

definition parseLegacyExport :: "(jstring \<Rightarrow> json option) \<Rightarrow> json \<Rightarrow> ReplayTimeline option" where
  "parseLegacyExport jsonParse input =
     (let envelope = asRecord input;
          coreMessages = asArray (field envelope ''core_messages'')
      in if length coreMessages = 0 then Some emptyTimeline
         else (case processMessages jsonParse coreMessages (seededState envelope) of
                 None \<Rightarrow> None
               | Some st \<Rightarrow>
                   let st' = ensureCommentatorExists (clampPlayers st)
                   in Some \<lparr> frames = repairPass (s_actions st') (s_frames st'),
                             actions = s_actions st',
                             discussions = s_discussions st' \<rparr>))"

section \<open>The HP ceiling\<close>

text \<open>Every hp of the registry and of the frames emitted so far is at most the current
  ceiling \<open>maxHpSeen\<close>.\<close>

definition hpBelowCeiling :: "ParseState \<Rightarrow> bool" where
  "hpBelowCeiling st \<longleftrightarrow>
     list_all (\<lambda>(k, p). m_hp p \<le> s_maxHpSeen st) (s_players st)
     \<and> list_all (\<lambda>f. list_all (\<lambda>p. hp p \<le> s_maxHpSeen st) (players (state f))) (s_frames st)"

section \<open>The move phase of the playback pipeline (App.tsx)\<close>

datatype ActionPhase = idle | discussion | sight | dice | sync | move | impact

text \<open>The part of the component state that the move phase writes before it interpolates.\<close>

record Playback =
  actionIndex :: int
  actionPhase :: ActionPhase
  activeAction :: "ReplayAction option"

text \<open>\<^verbatim>\<open>Math.min(action.frameIndex, replayFrames.length - 1)\<close>\<close>

definition targetIndex :: "ReplayFrame list \<Rightarrow> ReplayAction \<Rightarrow> int" where
  "targetIndex replayFrames action = min (frameIndex action) (int (length replayFrames) - 1)"

text \<open>\<^verbatim>\<open>replayFrames[targetIndex]?.state\<close>, which is \<^verbatim>\<open>undefined\<close> outside the list.\<close>

definition toState :: "ReplayFrame list \<Rightarrow> ReplayAction \<Rightarrow> GameState option" where
  "toState replayFrames action =
     (let i = targetIndex replayFrames action
      in if 0 \<le> i \<and> i < int (length replayFrames) then Some (state (replayFrames ! nat i)) else None)"

text \<open>
  What the pipeline does once the phase is \<^verbatim>\<open>move\<close>: either it gives the move up
  (\<open>Skipped\<close>, with the state it leaves), or it calls \<^verbatim>\<open>animateMoveForRun\<close> from the live
  state towards the target state (\<open>Interpolate\<close>, with the index of the target frame).
\<close>

datatype MoveOutcome =
    Skipped Playback
  | Interpolate GameState GameState int

definition movePhase :: "ReplayFrame list \<Rightarrow> GameState \<Rightarrow> ReplayAction \<Rightarrow> Playback \<Rightarrow> MoveOutcome" where
  "movePhase replayFrames fromState action pb =
     (let pb1 = pb\<lparr>actionPhase := move\<rparr>
      in case toState replayFrames action of
           None \<Rightarrow>
             Skipped (pb1\<lparr> actionIndex := actionIndex pb1 + 1,
                           actionPhase := idle,
                           activeAction := None \<rparr>)
         | Some target \<Rightarrow> Interpolate fromState target (targetIndex replayFrames action))"

section \<open>Speech duration (App.tsx)\<close>

text \<open>
  The arithmetic of \<open>speechDurationMs\<close> is arithmetic on doubles, as above; overflow and
  subnormal numbers are far from the values that occur here.
\<close>

text \<open>The literals \<^verbatim>\<open>1.25\<close> and \<^verbatim>\<open>0.8\<close> denote the doubles nearest to them.\<close>

definition DIALOGUE_TIME_SCALE :: rat where
  "DIALOGUE_TIME_SCALE = to_double (5 / 4)"

definition SPEECH_TIME_COMPENSATION :: rat where
  "SPEECH_TIME_COMPENSATION = to_double (4 / 5)"

definition speechDurationMs :: "jstring \<Rightarrow> rat \<Rightarrow> rat" where
  "speechDurationMs msg multiplier =
     js_mul
       (js_mul
          (js_mul (max 2200 (min 9000 (js_add 1400 (js_mul (of_nat (length msg)) 36))))
             DIALOGUE_TIME_SCALE)
          SPEECH_TIME_COMPENSATION)
       (max 1 multiplier)"

section \<open>Sample values\<close>

definition samplePlayer :: "string \<Rightarrow> rat \<Rightarrow> rat \<Rightarrow> PlayerState" where
  "samplePlayer ident pos h =
     \<lparr> player_id = js ident, name = js ident, avatar = None, position = pos, facing = 1,
       vote_reverse = None, hp = h, inventory = [], message = [] \<rparr>"

definition sampleState :: "rat \<Rightarrow> PlayerState list \<Rightarrow> GameState" where
  "sampleState len ps =
     \<lparr> tick = 0, track_length = len, players = ps,
       truck = \<lparr> truck_position = 0, truck_direction = 1, speed = 1, can_multi_hit = False \<rparr>,
       items = [], logs = [] \<rparr>"

definition sampleFrame :: "string \<Rightarrow> rat \<Rightarrow> PlayerState list \<Rightarrow> ReplayFrame" where
  "sampleFrame lbl len ps = \<lparr> state = sampleState len ps, label = js lbl \<rparr>"

definition sampleAction :: "string \<Rightarrow> rat \<Rightarrow> direction \<Rightarrow> int \<Rightarrow> ReplayAction" where
  "sampleAction ident n d idx =
     \<lparr> action_tick = 0, agent_id = js ident, ai_name = js ident, steps = n, direction = d,
       action_text = [], discussion_message = [], action_message = [], frameIndex = idx \<rparr>"

definition samplePlayback :: "ReplayAction \<Rightarrow> Playback" where
  "samplePlayback a = \<lparr> actionIndex = 0, actionPhase = sync, activeAction = Some a \<rparr>"

section \<open>Outline of a reconstruction\<close>

text \<open>
  What the frames and actions of a parse state show of its history: for every frame its
  label and the track length it recorded, for every action its frame index, and the
  current track length.
\<close>

definition outline :: "ParseState \<Rightarrow> (jstring \<times> rat) list \<times> int list \<times> rat" where
  "outline st =
     (map (\<lambda>f. (label f, track_length (state f))) (s_frames st),
      map frameIndex (s_actions st),
      s_trackLength st)"

text \<open>The label of the frame that a message makes the loop push, if it pushes one; this
  depends on the message alone.\<close>

definition emittedLabel :: "json \<Rightarrow> jstring option" where
  "emittedLabel msg =
     (let event = asString (field msg ''event'') [];
          messageType = asString (field msg ''message_type'') []
      in if event = js ''game_started'' then Some event
         else if messageType = js ''agent_interaction'' then
           (if event = js ''discussion_response'' \<or> event = js ''agent_response''
               \<or> event = js ''commentator_response''
            then Some event else None)
         else if event = js ''player_moved'' \<or> event = js ''player_hit''
              \<or> event = js ''truck_moved'' \<or> event = js ''commentator_broadcast''
              \<or> event = js ''public_broadcast'' \<or> event = js ''turn_finished''
              \<or> event = js ''turn_started''
         then Some event else None)"

text \<open>The track length after a message: its positive hint if it carries one, else the
  length before.\<close>

definition hintedTrack :: "json \<Rightarrow> rat \<Rightarrow> rat" where
  "hintedTrack msg cur =
     (case compactTrackSize (asRecord (field msg ''payload'')) of Some t \<Rightarrow> t | None \<Rightarrow> cur)"

definition nextOutline ::
  "json \<Rightarrow> (jstring \<times> rat) list \<times> int list \<times> rat \<Rightarrow> (jstring \<times> rat) list \<times> int list \<times> rat" where
  "nextOutline msg ol =
     (case ol of (fs, ix, cur) \<Rightarrow>
        let cur' = hintedTrack msg cur
        in (case emittedLabel msg of
              None \<Rightarrow> (fs, ix, cur')
            | Some l \<Rightarrow>
                (fs @ [(l, cur')],
                 (if l = js ''player_moved'' then ix @ [int (length fs)] else ix),
                 cur')))"

text \<open>The track lengths that the frames of a message list record when each frame takes
  the most recent positive hint, starting from \<open>cur\<close>.\<close>

fun expectedTracks :: "rat \<Rightarrow> json list \<Rightarrow> rat list" where
  "expectedTracks cur [] = []"
| "expectedTracks cur (msg # rest) =
     (case emittedLabel msg of
        None \<Rightarrow> expectedTracks (hintedTrack msg cur) rest
      | Some l \<Rightarrow> hintedTrack msg cur # expectedTracks (hintedTrack msg cur) rest)"

text \<open>The list of messages that \<open>parseLegacyExport\<close> iterates over.\<close>

definition coreMessagesOf :: "json \<Rightarrow> json list" where
  "coreMessagesOf input = asArray (field (asRecord input) ''core_messages'')"

text \<open>The outline after a frame with label \<open>l\<close> was pushed, and after an action was
  appended that points to the last frame.\<close>

definition outlinePush :: "jstring \<Rightarrow> (jstring \<times> rat) list \<times> int list \<times> rat \<Rightarrow> (jstring \<times> rat) list \<times> int list \<times> rat" where
  "outlinePush l ol = (case ol of (fs, ix, cur) \<Rightarrow> (fs @ [(l, cur)], ix, cur))"

definition outlineAct :: "(jstring \<times> rat) list \<times> int list \<times> rat \<Rightarrow> (jstring \<times> rat) list \<times> int list \<times> rat" where
  "outlineAct ol = (case ol of (fs, ix, cur) \<Rightarrow> (fs, ix @ [int (length fs) - 1], cur))"

definition outlineHint :: "rat \<Rightarrow> (jstring \<times> rat) list \<times> int list \<times> rat \<Rightarrow> (jstring \<times> rat) list \<times> int list \<times> rat" where
  "outlineHint t ol = (case ol of (fs, ix, cur) \<Rightarrow> (fs, ix, t))"

text \<open>The action indices of an outline are strictly increasing and each points to a frame
  of the outline that is labelled \<open>player_moved\<close>.\<close>

definition goodOutline :: "(jstring \<times> rat) list \<times> int list \<times> rat \<Rightarrow> bool" where
  "goodOutline ol \<longleftrightarrow>
     (case ol of (fs, ix, cur) \<Rightarrow>
        sorted_wrt (<) ix
        \<and> (\<forall>i \<in> set ix. 0 \<le> i \<and> i < int (length fs) \<and> fst (fs ! nat i) = js ''player_moved''))"


definition sampleMessage :: "string \<Rightarrow> (jstring \<times> json) list \<Rightarrow> json" where
  "sampleMessage event pl = JObj [(js ''event'', JStr (js event)), (js ''payload'', JObj pl)]"

definition sampleHint :: "rat \<Rightarrow> (jstring \<times> json) list" where
  "sampleHint n = [(js ''request'', JObj [(js ''ps'', JObj [(js ''ts'', JNum n)])])]"

definition sampleExport :: "json list \<Rightarrow> json" where
  "sampleExport msgs = JObj [(js ''core_messages'', JArr msgs)]"

section \<open>Rounding to doubles\<close>



lemma bit_length_unique: "2 ^ e \<le> n \<Longrightarrow> n < 2 ^ Suc e \<Longrightarrow> bit_length n = Suc e"
proof (induction e arbitrary: n)
  case 0
  then have "n = 1" by simp
  then show ?case by (simp add: bit_length.simps)
next
  case (Suc e)
  have a: "2 ^ e \<le> n div 2" using Suc.prems by simp
  have b: "n div 2 < 2 ^ Suc e" using Suc.prems by simp
  have "n \<noteq> 0" using Suc.prems by auto
  then show ?case
    using Suc.IH [OF a b] by (subst bit_length.simps) simp
qed

lemma bit_length_bounds: "0 < n \<Longrightarrow> 2 ^ (bit_length n - 1) \<le> n \<and> n < 2 ^ bit_length n"
proof (induction n rule: bit_length.induct)
  case (1 n)
  show ?case
  proof (cases "n div 2 = 0")
    case True
    then have "n = 1" using 1 by (simp add: div_eq_0_iff) 
    then show ?thesis by (simp add: bit_length.simps)
  next
    case False
    then have ih: "2 ^ (bit_length (n div 2) - 1) \<le> n div 2 \<and> n div 2 < 2 ^ bit_length (n div 2)"
      using 1 by simp
    have bl: "bit_length n = Suc (bit_length (n div 2))"
      using 1(2) by (subst bit_length.simps) simp
    have pos: "0 < bit_length (n div 2)"
      using False by (subst bit_length.simps) simp
    then obtain k where k: "bit_length (n div 2) = Suc k"
      by (cases "bit_length (n div 2)") auto
    define P :: nat where "P = 2 ^ k"
    have "P \<le> n div 2 \<and> n div 2 < 2 * P"
      using ih by (simp add: k P_def)
    then have "2 * P \<le> n \<and> n < 4 * P"
      by arith
    then show ?thesis
      by (simp add: bl k P_def)
  qed
qed


lemma binary_exponent_unique:
  fixes x :: rat
  assumes "2 ^ E \<le> x" and "x < 2 ^ Suc E"
  shows "binary_exponent x = int E"
proof -
  have one: "1 \<le> x"
    using assms(1) one_le_power [of "2::rat" E] by linarith
  have lo: "(2::int) ^ E \<le> \<lfloor>x\<rfloor>"
    using assms(1) by (simp add: le_floor_iff)
  have hi: "\<lfloor>x\<rfloor> < (2::int) ^ Suc E"
    using assms(2) by (simp add: floor_less_iff)
  have nlo: "2 ^ E \<le> nat \<lfloor>x\<rfloor>"
    using lo by (simp add: le_nat_iff)
  have nonneg: "0 \<le> \<lfloor>x\<rfloor>"
    using lo zero_le_power [of "2::int" E] by linarith
  have "\<lfloor>x\<rfloor> < int (2 ^ Suc E)"
    using hi by simp
  then have nhi: "nat \<lfloor>x\<rfloor> < 2 ^ Suc E"
    using nonneg by (simp only: nat_less_iff)
  show ?thesis
    using one bit_length_unique [OF nlo nhi] by (simp add: binary_exponent_def)
qed

lemma binary_exponent_bounds:
  fixes x :: rat
  assumes "1 \<le> x"
  shows "\<exists>E. binary_exponent x = int E \<and> 2 ^ E \<le> x \<and> x < 2 ^ Suc E"
proof -
  define n where "n = nat \<lfloor>x\<rfloor>"
  have fl: "1 \<le> \<lfloor>x\<rfloor>" using assms by (simp add: le_floor_iff)
  then have npos: "0 < n" by (simp add: n_def)
  define E where "E = bit_length n - 1"
  have b: "2 ^ E \<le> n \<and> n < 2 ^ bit_length n"
    using bit_length_bounds [OF npos] by (simp add: E_def)
  have "bit_length n = Suc (bit_length (n div 2))"
    using npos by (subst bit_length.simps) simp
  then have blpos: "bit_length n = Suc E"
    by (simp add: E_def)
  have nx: "of_nat n \<le> x"
    using fl by (simp add: n_def of_nat_nat)
  have xn: "x < of_nat n + 1"
    using fl floor_correct [of x] by (simp add: n_def of_nat_nat)
  have "(2::rat) ^ E = of_nat (2 ^ E)" by simp
  also have "\<dots> \<le> of_nat n" using b by (simp only: of_nat_le_iff)
  finally have lo: "2 ^ E \<le> x" using nx by linarith
  have "of_nat n + (1::rat) = of_nat (Suc n)" by simp
  also have "\<dots> \<le> of_nat (2 ^ Suc E)"
    using b blpos by (simp only: of_nat_le_iff) simp
  also have "\<dots> = (2::rat) ^ Suc E" by simp
  finally have hi: "x < 2 ^ Suc E" using xn by linarith
  show ?thesis
    using binary_exponent_unique [OF lo hi] lo hi by blast
qed

lemma unit_in_last_place:
  "E \<le> 52 \<Longrightarrow> (2::rat) powi (int E - 52) = 1 / 2 ^ (52 - E)"
proof -
  assume a: "E \<le> 52"
  have "(2::rat) powi (int E - 52) = 2 powi (- int (52 - E))"
    using a by simp
  also have "\<dots> = 1 / 2 ^ (52 - E)"
    by (simp add: power_int_minus field_simps)
  finally show ?thesis .
qed

lemma round_half_even_near:
  assumes "0 \<le> d" and "d < 1 / 2"
  shows "round_half_even (of_int K + d) = K"
proof -
  have "\<lfloor>of_int K + d\<rfloor> = K"
    using assms by (intro floor_unique) simp_all
  then show ?thesis
    using assms by (simp add: round_half_even_def Let_def)
qed

lemma to_double_near:
  fixes x :: rat
  assumes "E \<le> 52" and "2 ^ E \<le> x" and "x < 2 ^ Suc E"
    and "x * 2 ^ (52 - E) = of_int K + d" and "0 \<le> d" and "d < 1 / 2"
  shows "to_double x = of_int K / 2 ^ (52 - E)"
proof -
  have pos: "0 < x"
    using assms(2) zero_less_power [of "2::rat" E] by linarith
  have ab: "\<bar>x\<bar> = x" using pos by simp
  have be: "binary_exponent x = int E"
    by (rule binary_exponent_unique [OF assms(2,3)])
  have u: "(2::rat) powi (binary_exponent x - 52) = 1 / 2 ^ (52 - E)"
    by (simp only: be unit_in_last_place [OF assms(1)])
  have r: "round_half_even (x * 2 ^ (52 - E)) = K"
    using round_half_even_near [OF assms(5,6), of K] by (simp only: assms(4))
  have "to_double x = sgn x * of_int (round_half_even (x / (1 / 2 ^ (52 - E)))) * (1 / 2 ^ (52 - E))"
    using pos unfolding to_double_def Let_def ab u by simp
  then show ?thesis
    using pos by (simp add: r)
qed


lemma to_double_dyadic:
  fixes a :: int
  assumes "a < 2 ^ 53" and "1 \<le> of_int a / (2::rat) ^ j"
  shows "to_double (of_int a / 2 ^ j) = of_int a / 2 ^ j"
proof -
  define x :: rat where "x = of_int a / 2 ^ j"
  obtain E where lo: "2 ^ E \<le> x" and hi: "x < 2 ^ Suc E"
    using binary_exponent_bounds [of x] assms(2) by (auto simp add: x_def)
  have ax: "of_int a = x * 2 ^ j" by (simp add: x_def)
  have "(2::rat) ^ (E + j) \<le> of_int a"
    using lo by (simp add: ax power_add)
  moreover have "(of_int a :: rat) < 2 ^ 53"
  proof -
    have "(of_int a :: rat) < of_int (2 ^ 53)"
      using assms(1) by (simp only: of_int_less_iff)
    then show ?thesis by simp
  qed
  ultimately have "(2::rat) ^ (E + j) < 2 ^ 53" by linarith
  then have ej: "E + j < 53"
    by (simp only: power_strict_increasing_iff [of "2::rat"])
  then have E52: "E \<le> 52" by simp
  have split: "52 - E = (52 - E - j) + j" using ej by simp
  have "x * 2 ^ (52 - E) = x * 2 ^ j * 2 ^ (52 - E - j)"
    by (subst split) (simp add: power_add)
  also have "\<dots> = of_int (a * 2 ^ (52 - E - j)) + 0"
    by (simp add: ax)
  finally have k: "x * 2 ^ (52 - E) = of_int (a * 2 ^ (52 - E - j)) + 0" .
  have "to_double x = of_int (a * 2 ^ (52 - E - j)) / 2 ^ (52 - E)"
    by (rule to_double_near [OF E52 lo hi k]) simp_all
  also have "\<dots> = of_int a * 2 ^ (52 - E - j) / (2 ^ (52 - E - j) * 2 ^ j)"
    by (subst split) (simp add: power_add)
  also have "\<dots> = x" by (simp add: x_def)
  finally show ?thesis by (simp add: x_def)
qed

lemma to_double_int:
  fixes a :: int
  assumes "0 \<le> a" and "a < 2 ^ 53"
  shows "to_double (of_int a) = of_int a"
proof (cases "a = 0")
  case True
  then show ?thesis by (simp add: to_double_def)
next
  case False
  then have "1 \<le> (of_int a :: rat)" using assms(1) by simp
  then show ?thesis
    using to_double_dyadic [OF assms(2), of 0] by simp
qed

lemma to_double_above:
  fixes k :: int
  assumes "1 \<le> k" and "k < 2 ^ 53"
  shows "to_double (of_int k + of_int k / 2 ^ 54) = of_int k"
proof -
  define x :: rat where "x = of_int k + of_int k / 2 ^ 54"
  obtain E where lo: "2 ^ E \<le> (of_int k :: rat)" and hi: "(of_int k :: rat) < 2 ^ Suc E"
    using binary_exponent_bounds [of "of_int k"] assms(1) by auto
  have kr: "(0::rat) < of_int k" using assms(1) by simp
  have k53: "(of_int k :: rat) < 2 ^ 53"
  proof -
    have "(of_int k :: rat) < of_int (2 ^ 53)"
      using assms(2) by (simp only: of_int_less_iff)
    then show ?thesis by simp
  qed
  have "(2::rat) ^ E < 2 ^ 53" using lo k53 by linarith
  then have "E < 53"
    by (simp only: power_strict_increasing_iff [of "2::rat"])
  then have E52: "E \<le> 52" by simp
  have nn: "(0::rat) \<le> of_int k / 2 ^ 54"
    using kr by simp
  have lox: "2 ^ E \<le> x"
    unfolding x_def using lo nn by linarith
  have "(of_int k :: rat) < of_int (2 ^ Suc E)"
    using hi by simp
  then have "k < 2 ^ Suc E"
    by (simp only: of_int_less_iff)
  then have "k + 1 \<le> 2 ^ Suc E" by simp
  then have "(of_int (k + 1) :: rat) \<le> of_int (2 ^ Suc E)"
    by (simp only: of_int_le_iff)
  then have k1: "(of_int k :: rat) + 1 \<le> 2 ^ Suc E"
    by simp
  have small: "(of_int k :: rat) / 2 ^ 54 < 1"
    using k53 by simp
  have hix: "x < 2 ^ Suc E"
    unfolding x_def using k1 small by linarith
  define d :: rat where "d = of_int k / 2 ^ (E + 2)"
  have p54: "(2::rat) ^ 54 = 2 ^ (52 - E) * 2 ^ (E + 2)"
    using E52 by (simp add: power_add [symmetric])
  have "x * 2 ^ (52 - E) = of_int k * 2 ^ (52 - E) + of_int k * 2 ^ (52 - E) / 2 ^ 54"
    by (simp add: x_def algebra_simps)
  also have "of_int k * (2::rat) ^ (52 - E) / 2 ^ 54 = d"
    unfolding p54 d_def by simp
  finally have kd: "x * 2 ^ (52 - E) = of_int (k * 2 ^ (52 - E)) + d" by simp
  have d0: "0 \<le> d" using kr by (simp add: d_def)
  have "(of_int k :: rat) < 2 ^ (E + 2) * (1 / 2)"
    using hi by simp
  then have d1: "d < 1 / 2"
    unfolding d_def by (simp add: field_simps)
  have "to_double x = of_int (k * 2 ^ (52 - E)) / 2 ^ (52 - E)"
    by (rule to_double_near [OF E52 lox hix kd d0 d1])
  then show ?thesis by (simp add: x_def)
qed


lemma to_double_ge_half:
  fixes x :: rat
  assumes "1 \<le> x"
  shows "x < 2 * to_double x"
proof -
  obtain E where be: "binary_exponent x = int E" and lo: "2 ^ E \<le> x" and hi: "x < 2 ^ Suc E"
    using binary_exponent_bounds [OF assms] by blast
  define u :: rat where "u = 2 powi (int E - 52)"
  have upos: "0 < u" by (simp add: u_def)
  have pe: "(2::rat) ^ E = 2 ^ 52 * u"
  proof -
    have "(2::rat) ^ 52 * u = 2 powi 52 * 2 powi (int E - 52)" by (simp add: u_def)
    also have "\<dots> = 2 powi (52 + (int E - 52))" by (subst power_int_add) simp_all
    also have "\<dots> = 2 ^ E" by simp
    finally show ?thesis by simp
  qed
  have "2 ^ 52 \<le> x / u"
    using lo upos by (simp add: pe field_simps)
  then have "(2::int) ^ 52 \<le> \<lfloor>x / u\<rfloor>"
    by (simp add: le_floor_iff)
  moreover have "\<lfloor>x / u\<rfloor> \<le> round_half_even (x / u)"
    by (simp add: round_half_even_def Let_def)
  ultimately have "(2::int) ^ 52 \<le> round_half_even (x / u)" by linarith
  then have "(of_int (2 ^ 52) :: rat) \<le> of_int (round_half_even (x / u))"
    by (simp only: of_int_le_iff)
  then have "(2::rat) ^ 52 \<le> of_int (round_half_even (x / u))"
    by simp
  then have "2 ^ 52 * u \<le> of_int (round_half_even (x / u)) * u"
    using upos by simp
  moreover have "to_double x = of_int (round_half_even (x / u)) * u"
    using assms by (simp add: to_double_def Let_def be u_def)
  ultimately have "2 ^ E \<le> to_double x" by (simp add: pe)
  then show ?thesis using hi by simp
qed

lemma clamp_sum:
  fixes n :: nat
  shows "max 2200 (min 9000 (js_add 1400 (js_mul (of_nat n) 36)))
           = (of_int (max 2200 (min 9000 (1400 + 36 * int n))) :: rat)"
proof (cases "36 * int n + 1400 < 2 ^ 53")
  case True
  have m: "js_mul (of_nat n) 36 = of_int (36 * int n)"
  proof -
    have "to_double (of_int (36 * int n)) = of_int (36 * int n)"
      using True by (intro to_double_int) simp_all
    then show ?thesis by (simp add: js_mul_def mult.commute)
  qed
  have a: "js_add 1400 (of_int (36 * int n)) = of_int (1400 + 36 * int n)"
  proof -
    have "to_double (of_int (1400 + 36 * int n)) = of_int (1400 + 36 * int n)"
      using True by (intro to_double_int) simp_all
    then show ?thesis by (simp add: js_add_def)
  qed
  show ?thesis
    unfolding m a by (simp add: max_def min_def)
next
  case False
  then have big: "(2::int) ^ 53 \<le> 36 * int n + 1400" by simp
  define v1 where "v1 = js_mul (of_nat n) 36"
  define v2 where "v2 = js_add 1400 v1"
  have n1: "(1::rat) \<le> of_nat n * 36"
  proof -
    have "1 \<le> n" using big by (cases n) simp_all
    then have "(1::rat) \<le> of_nat n" by simp
    then show ?thesis by linarith
  qed
  have "of_nat n * 36 < 2 * v1"
    unfolding v1_def js_mul_def by (rule to_double_ge_half [OF n1])
  moreover have "(33200::rat) \<le> of_nat n * 36"
  proof -
    have "33200 \<le> 36 * int n" using big by simp
    then have "(of_int 33200 :: rat) \<le> of_int (36 * int n)"
      by (simp only: of_int_le_iff)
    then show ?thesis by (simp add: mult.commute)
  qed
  ultimately have v1: "16600 < v1" by linarith
  then have "1 \<le> 1400 + v1" by linarith
  then have "1400 + v1 < 2 * v2"
    unfolding v2_def js_add_def by (rule to_double_ge_half)
  then have v2: "9000 < v2" using v1 by linarith
  have l: "max 2200 (min 9000 v2) = 9000"
    using v2 by (simp add: max_def min_def)
  have "9000 \<le> 1400 + 36 * int n" using big by simp
  then have r: "max 2200 (min 9000 (1400 + 36 * int n)) = 9000"
    by (simp add: max_def min_def)
  show ?thesis
    unfolding v1_def [symmetric] v2_def [symmetric] l r by simp
qed

lemma time_scale_exact: "DIALOGUE_TIME_SCALE = 5 / 4"
proof -
  have "to_double (of_int 5 / 2 ^ 2) = of_int 5 / 2 ^ 2"
    by (rule to_double_dyadic) simp_all
  then show ?thesis by (simp add: DIALOGUE_TIME_SCALE_def)
qed

lemma speech_compensation_value: "SPEECH_TIME_COMPENSATION = 3602879701896397 / 2 ^ 52"
proof -
  have lo: "(2::rat) ^ 0 \<le> 8 / 5" by simp
  have hi: "(8 / 5 :: rat) < 2 ^ Suc 0" by simp
  have b: "bit_length (Suc 0) = Suc 0"
    by (subst bit_length.simps) (simp add: bit_length.simps)
  have c: "\<lceil>(5 / 4 :: rat)\<rceil> = 2"
    by (rule ceiling_unique) simp_all
  have be: "binary_exponent (4 / 5) = - 1"
    by (simp add: binary_exponent_def c b)
  have fl: "\<lfloor>(36028797018963968 / 5 :: rat)\<rfloor> = 7205759403792793"
    by (rule floor_unique) simp_all
  have r: "round_half_even (36028797018963968 / 5) = 7205759403792794"
    by (simp add: round_half_even_def Let_def fl)
  have u: "(2::rat) powi (- 53) = 1 / 2 ^ 53"
    by (simp add: power_int_minus field_simps)
  show ?thesis
    by (simp add: SPEECH_TIME_COMPENSATION_def to_double_def Let_def be u r)
qed



section \<open>Track arithmetic: basic facts\<close>

text \<open>
  On integers the arithmetic of the track is exact as long as every intermediate result
  stays below \<open>2 ^ 53\<close> in magnitude; then \<open>wrapTrack\<close> is the remainder of the
  floored division.
\<close>

lemma to_double_minus: "to_double (- x) = - to_double x"
  by (simp add: to_double_def Let_def)

lemma to_double_int_abs:
  fixes a :: int
  assumes "\<bar>a\<bar> < 2 ^ 53"
  shows "to_double (of_int a) = of_int a"
proof (cases "0 \<le> a")
  case True
  then show ?thesis using assms by (intro to_double_int) simp_all
next
  case False
  then have "to_double (of_int (- a)) = of_int (- a)"
    using assms by (intro to_double_int) simp_all
  then show ?thesis
    using to_double_minus [of "of_int a"] by simp
qed

lemma js_rem_int:
  fixes a n :: int
  assumes "0 < n"
  shows "js_rem (of_int a) (of_int n) = of_int (if 0 \<le> a then a mod n else - ((- a) mod n))"
proof (cases "0 \<le> a")
  case True
  then have q: "(0::rat) \<le> of_int a / of_int n"
    using assms by simp
  have "\<lfloor>(of_int a :: rat) / of_int n\<rfloor> = a div n"
    by (rule floor_divide_of_int_eq)
  then have "js_rem (of_int a) (of_int n) = of_int a - of_int n * of_int (a div n)"
    using q by (simp add: js_rem_def Let_def)
  also have "\<dots> = of_int (a - n * (a div n))" by simp
  also have "a - n * (a div n) = a mod n"
    by (simp add: minus_mult_div_eq_mod)
  finally show ?thesis using True by simp
next
  case False
  then have neg: "a < 0" by simp
  then have q: "\<not> (0::rat) \<le> of_int a / of_int n"
    using assms by (simp add: divide_less_0_iff not_le)
  have "\<lceil>(of_int a :: rat) / of_int n\<rceil> = - \<lfloor>(of_int (- a) :: rat) / of_int n\<rfloor>"
    by (simp add: ceiling_def)
  also have "\<dots> = - ((- a) div n)"
    by (simp only: floor_divide_of_int_eq)
  finally have c: "\<lceil>(of_int a :: rat) / of_int n\<rceil> = - ((- a) div n)" .
  have "js_rem (of_int a) (of_int n) = of_int a - of_int n * of_int (- ((- a) div n))"
    using q by (simp add: js_rem_def Let_def c)
  also have "\<dots> = of_int (- ((- a) - n * ((- a) div n)))" by simp
  also have "(- a) - n * ((- a) div n) = (- a) mod n"
    by (simp add: minus_mult_div_eq_mod)
  finally show ?thesis using False by simp
qed

lemma js_rem_nonneg_int:
  fixes a n :: int
  assumes "0 < n" and "0 \<le> a"
  shows "js_rem (of_int a) (of_int n) = of_int (a mod n)"
  using js_rem_int [OF assms(1), of a] assms(2) by simp

lemma max_one_of_int: "max 1 (of_int L :: rat) = of_int (max 1 L)"
  by (simp add: max_def)

lemma wrapTrack_int:
  fixes p L :: int
  assumes "L \<le> 2 ^ 52"
  shows "wrapTrack (of_int p) (of_int L) = of_int (p mod max 1 L)"
proof -
  define n where "n = max 1 L"
  have npos: "0 < n" by (simp add: n_def)
  have nle: "n \<le> 2 ^ 52" using assms by (simp add: n_def)
  define r where "r = (if 0 \<le> p then p mod n else - ((- p) mod n))"
  have r1: "js_rem (of_int p) (of_int n) = of_int r"
    unfolding r_def by (rule js_rem_int [OF npos])
  have rb: "- n < r \<and> r < n"
  proof (cases "0 \<le> p")
    case True
    then have "r = p mod n" by (simp add: r_def)
    then show ?thesis
      using pos_mod_bound [OF npos, of p] pos_mod_sign [OF npos, of p] npos
      by linarith
  next
    case False
    then have "r = - ((- p) mod n)" by (simp add: r_def)
    then show ?thesis
      using pos_mod_bound [OF npos, of "- p"] pos_mod_sign [OF npos, of "- p"] npos
      by linarith
  qed
  have rm: "r mod n = p mod n"
    by (simp add: r_def mod_minus_eq)
  have s0: "0 \<le> r + n" using rb by simp
  have "\<bar>r + n\<bar> < 2 ^ 53" using rb nle by simp
  then have "to_double (of_int (r + n)) = of_int (r + n)"
    by (rule to_double_int_abs)
  then have r2: "js_add (of_int r) (of_int n) = of_int (r + n)"
    by (simp add: js_add_def)
  have r3: "js_rem (of_int (r + n)) (of_int n) = of_int ((r + n) mod n)"
    by (rule js_rem_nonneg_int [OF npos s0])
  have "(r + n) mod n = p mod n" using rm by simp
  then show ?thesis
    unfolding wrapTrack_def Let_def max_one_of_int n_def [symmetric] r1 r2 r3 by simp
qed


text \<open>Beyond that range the addition rounds, in the model as in the program.\<close>

lemma wrapTrack_rounds: "wrapTrack 5 (2 ^ 60) = 0"
proof -
  have m: "max 1 ((2::rat) ^ 60) = 2 ^ 60" by simp
  have q0: "(0::rat) \<le> 5 / 2 ^ 60" by simp
  have f0: "\<lfloor>(5::rat) / 2 ^ 60\<rfloor> = 0"
    by (rule floor_unique) simp_all
  have r1: "js_rem 5 (2 ^ 60) = 5"
    unfolding js_rem_def Let_def f0 using q0 by simp
  have be: "binary_exponent (5 + 2 ^ 60) = int 60"
    by (rule binary_exponent_unique) simp_all
  have u: "(2::rat) powi (int 60 - 52) = 2 ^ 8"
    by (simp add: power_int_def)
  have f1: "\<lfloor>((5::rat) + 2 ^ 60) / 2 ^ 8\<rfloor> = 2 ^ 52"
    by (rule floor_unique) simp_all
  have fr: "((5::rat) + 2 ^ 60) / 2 ^ 8 - of_int (2 ^ 52) < 1 / 2"
    by simp
  have rd: "round_half_even (((5::rat) + 2 ^ 60) / 2 ^ 8) = 2 ^ 52"
    unfolding round_half_even_def Let_def f1 using fr by simp
  have nz: "(5::rat) + 2 ^ 60 \<noteq> 0" "\<bar>(5::rat) + 2 ^ 60\<bar> = 5 + 2 ^ 60" "sgn ((5::rat) + 2 ^ 60) = 1"
    by simp_all
  have a: "js_add 5 (2 ^ 60) = 2 ^ 60"
    unfolding js_add_def to_double_def Let_def nz be u rd by simp
  have q1: "(0::rat) \<le> 2 ^ 60 / 2 ^ 60" by simp
  have f2: "\<lfloor>(2::rat) ^ 60 / 2 ^ 60\<rfloor> = 1"
    by simp
  have r2: "js_rem ((2::rat) ^ 60) (2 ^ 60) = 0"
    unfolding js_rem_def Let_def f2 using q1 by simp
  show ?thesis
    by (simp only: wrapTrack_def Let_def m r1 a r2)
qed

lemma pow53: "(2::int) ^ 53 = 2 * 2 ^ 52"
  by simp

lemma js_sub_int:
  fixes a b :: int
  assumes "\<bar>a - b\<bar> < 2 ^ 53"
  shows "js_sub (of_int a) (of_int b) = of_int (a - b)"
proof -
  have "to_double (of_int (a - b)) = of_int (a - b)"
    using assms by (rule to_double_int_abs)
  then show ?thesis by (simp add: js_sub_def)
qed

lemma js_add_int:
  fixes a b :: int
  assumes "\<bar>a + b\<bar> < 2 ^ 53"
  shows "js_add (of_int a) (of_int b) = of_int (a + b)"
proof -
  have "to_double (of_int (a + b)) = of_int (a + b)"
    using assms by (rule to_double_int_abs)
  then show ?thesis by (simp add: js_add_def)
qed

lemma js_mul_int:
  fixes a b :: int
  assumes "\<bar>a * b\<bar> < 2 ^ 53"
  shows "js_mul (of_int a) (of_int b) = of_int (a * b)"
proof -
  have "to_double (of_int (a * b)) = of_int (a * b)"
    using assms by (rule to_double_int_abs)
  then show ?thesis by (simp add: js_mul_def)
qed


lemma circular_delta_int:
  fixes f t L :: int
  assumes "L \<le> 2 ^ 52"
  shows "js_rem (js_add (js_sub (wrapTrack (of_int t) (max 1 (of_int L)))
                                (wrapTrack (of_int f) (max 1 (of_int L))))
                        (max 1 (of_int L)))
                (max 1 (of_int L))
           = of_int ((t - f) mod max 1 L)"
proof -
  define n where "n = max 1 L"
  have npos: "0 < n" by (simp add: n_def)
  have nle: "n \<le> 2 ^ 52" using assms by (simp add: n_def)
  have mx: "max 1 n = n" using npos by simp
  define x where "x = f mod n"
  define y where "y = t mod n"
  have xb: "0 \<le> x \<and> x < n"
    using pos_mod_bound [OF npos, of f] pos_mod_sign [OF npos, of f] by (simp add: x_def)
  have yb: "0 \<le> y \<and> y < n"
    using pos_mod_bound [OF npos, of t] pos_mod_sign [OF npos, of t] by (simp add: y_def)
  have wf: "wrapTrack (of_int f) (of_int n) = of_int x"
    using wrapTrack_int [OF nle, of f] by (simp add: mx x_def)
  have wt: "wrapTrack (of_int t) (of_int n) = of_int y"
    using wrapTrack_int [OF nle, of t] by (simp add: mx y_def)
  have "\<bar>y - x\<bar> < 2 ^ 53" using xb yb nle pow53 by linarith
  then have d: "js_sub (of_int y) (of_int x) = of_int (y - x)"
    by (rule js_sub_int)
  have "\<bar>(y - x) + n\<bar> < 2 ^ 53" using xb yb nle pow53 by linarith
  then have a: "js_add (of_int (y - x)) (of_int n) = of_int (y - x + n)"
    by (rule js_add_int)
  have nn: "0 \<le> y - x + n" using xb yb by linarith
  have r: "js_rem (of_int (y - x + n)) (of_int n) = of_int ((y - x + n) mod n)"
    by (rule js_rem_nonneg_int [OF npos nn])
  have "(y - x + n) mod n = (t - f) mod n"
    by (simp add: x_def y_def mod_diff_eq)
  then show ?thesis
    unfolding max_one_of_int n_def [symmetric] wf wt d a r by simp
qed

lemma inferDirectionByPosition_int:
  fixes f t s L :: int
  assumes "L \<le> 2 ^ 52" and "\<bar>s\<bar> \<le> 2 ^ 52"
  shows "inferDirectionByPosition (of_int f) (of_int t) d (of_int s) (of_int L) =
           (if \<bar>(t - f) mod max 1 L - s\<bar> < \<bar>(f - t) mod max 1 L - s\<bar> then forward
            else if \<bar>(f - t) mod max 1 L - s\<bar> < \<bar>(t - f) mod max 1 L - s\<bar> then backward
            else d)"
proof -
  define n where "n = max 1 L"
  have npos: "0 < n" by (simp add: n_def)
  have nle: "n \<le> 2 ^ 52" using assms(1) by (simp add: n_def)
  define fwd where "fwd = (t - f) mod n"
  define bwd where "bwd = (f - t) mod n"
  have fb: "0 \<le> fwd \<and> fwd < n"
    using pos_mod_bound [OF npos, of "t - f"] pos_mod_sign [OF npos, of "t - f"]
    by (simp add: fwd_def)
  have bb: "0 \<le> bwd \<and> bwd < n"
    using pos_mod_bound [OF npos, of "f - t"] pos_mod_sign [OF npos, of "f - t"]
    by (simp add: bwd_def)
  have cf: "js_rem (js_add (js_sub (wrapTrack (of_int t) (max 1 (of_int L)))
                                (wrapTrack (of_int f) (max 1 (of_int L))))
                        (max 1 (of_int L))) (max 1 (of_int L)) = of_int fwd"
    unfolding fwd_def n_def by (rule circular_delta_int [OF assms(1)])
  have cb: "js_rem (js_add (js_sub (wrapTrack (of_int f) (max 1 (of_int L)))
                                (wrapTrack (of_int t) (max 1 (of_int L))))
                        (max 1 (of_int L))) (max 1 (of_int L)) = of_int bwd"
    unfolding bwd_def n_def by (rule circular_delta_int [OF assms(1)])
  have "\<bar>fwd - s\<bar> < 2 ^ 53" using fb nle assms(2) pow53 by linarith
  then have df: "js_sub (of_int fwd) (of_int s) = of_int (fwd - s)"
    by (rule js_sub_int)
  have "\<bar>bwd - s\<bar> < 2 ^ 53" using bb nle assms(2) pow53 by linarith
  then have db: "js_sub (of_int bwd) (of_int s) = of_int (bwd - s)"
    by (rule js_sub_int)
  have af: "\<bar>(of_int (fwd - s) :: rat)\<bar> = of_int \<bar>fwd - s\<bar>" by simp
  have ab: "\<bar>(of_int (bwd - s) :: rat)\<bar> = of_int \<bar>bwd - s\<bar>" by simp
  have "inferDirectionByPosition (of_int f) (of_int t) d (of_int s) (of_int L) =
      (if (of_int fwd :: rat) = of_int s \<and> (of_int bwd :: rat) \<noteq> of_int s then forward
       else if (of_int bwd :: rat) = of_int s \<and> (of_int fwd :: rat) \<noteq> of_int s then backward
       else if (of_int \<bar>fwd - s\<bar> :: rat) < of_int \<bar>bwd - s\<bar> then forward
       else if (of_int \<bar>bwd - s\<bar> :: rat) < of_int \<bar>fwd - s\<bar> then backward
       else d)"
    unfolding inferDirectionByPosition_def Let_def cf cb df db af ab ..
  also have "\<dots> =
      (if fwd = s \<and> bwd \<noteq> s then forward
       else if bwd = s \<and> fwd \<noteq> s then backward
       else if \<bar>fwd - s\<bar> < \<bar>bwd - s\<bar> then forward
       else if \<bar>bwd - s\<bar> < \<bar>fwd - s\<bar> then backward
       else d)"
    by (simp only: of_int_eq_iff of_int_less_iff)
  also have "\<dots> =
      (if \<bar>fwd - s\<bar> < \<bar>bwd - s\<bar> then forward
       else if \<bar>bwd - s\<bar> < \<bar>fwd - s\<bar> then backward
       else d)"
    by (cases "fwd = s"; cases "bwd = s"; simp)
  finally show ?thesis by (simp only: fwd_def bwd_def n_def)
qed

section \<open>The outline is computed by the loop\<close>

lemma outline_ensurePlayer [simp]: "outline (ensurePlayer a n v st) = outline st"
  by (simp add: ensurePlayer_def outline_def Let_def)

lemma outline_fold_ensurePlayer [simp]:
  "outline (fold (\<lambda>x s. ensurePlayer (f x s) (g x s) (h x s) s) xs st) = outline st"
  by (induction xs arbitrary: st) simp_all

lemma outline_pushLog [simp]: "outline (pushLog k p st) = outline st"
  by (simp add: pushLog_def outline_def Let_def)

lemma outline_update_other [simp]:
  "outline (st\<lparr>s_players := ps\<rparr>) = outline st"
  "outline (st\<lparr>s_truck := t\<rparr>) = outline st"
  "outline (st\<lparr>s_discussions := ds\<rparr>) = outline st"
  "outline (st\<lparr>s_knownPositionByAgent := ks\<rparr>) = outline st"
  "outline (st\<lparr>s_tick := k\<rparr>) = outline st"
  by (simp_all add: outline_def)

lemma outline_pushFrame [simp]: "outline (pushFrame l st) = outlinePush l (outline st)"
  by (simp add: pushFrame_def outline_def cloneState_def outlinePush_def)

lemma outline_backfillFallbackHp [simp]: "outline (backfillFallbackHp n st) = outline st"
  by (simp add: backfillFallbackHp_def outline_def upgradeFrame_def comp_def)

lemma outline_backfillSpawn [simp]: "outline (backfillSpawn a p d st) = outline st"
  by (simp add: backfillSpawn_def outline_def patchSpawn_def comp_def Let_def)

lemma outline_movePlayer [simp]: "outline (movePlayer pl a p st) = outline st"
  by (simp add: movePlayer_def Let_def)

lemma outline_recordResponse [simp]: "outline (recordResponse jp e pl a n st) = outline st"
  by (simp add: recordResponse_def Let_def outline_def pushLog_def split: option.splits)

lemma outline_routeBroadcast [simp]: "outline (routeBroadcast jp k fb ex n b st) = outline st"
  by (simp add: routeBroadcast_def Let_def)

lemma outline_systemChatter [simp]: "outline (systemChatter t st) = outline st"
  by (simp add: systemChatter_def)

lemma outline_game_started:
  "outline (on_game_started pl st) = outlinePush (js ''game_started'') (outline st)"
  unfolding on_game_started_def Let_def
  by (simp add: case_prod_unfold)

lemma outline_agent_interaction:
  "outline (on_agent_interaction jp e pl st) =
     (if e = js ''discussion_response'' \<or> e = js ''agent_response'' \<or> e = js ''commentator_response''
      then outlinePush e (outline st) else outline st)"
  unfolding on_agent_interaction_def Let_def
  by simp


lemma frameIndex_moveAction: "frameIndex (moveAction pl a n st) = int (length (s_frames st)) - 1"
  by (simp add: moveAction_def Let_def)

lemma outline_append_action:
  "frameIndex x = int (length (s_frames st)) - 1 \<Longrightarrow>
   outline (st\<lparr>s_actions := s_actions st @ [x]\<rparr>) = outlineAct (outline st)"
  by (simp add: outline_def outlineAct_def)

lemma outline_player_moved:
  "outline (on_player_moved pl st) = outlineAct (outlinePush (js ''player_moved'') (outline st))"
  unfolding on_player_moved_def Let_def
  by (simp add: outline_append_action frameIndex_moveAction split: option.splits)

lemma outline_player_hit:
  "outline (on_player_hit pl st) = outlinePush (js ''player_hit'') (outline st)"
  unfolding on_player_hit_def Let_def
  by (simp split: option.splits json.splits)

lemma outline_truck_moved:
  "outline (on_truck_moved pl st) = outlinePush (js ''truck_moved'') (outline st)"
  unfolding on_truck_moved_def Let_def by simp

lemma outline_commentator_broadcast:
  "outline (on_commentator_broadcast jp pl st) = outlinePush (js ''commentator_broadcast'') (outline st)"
  unfolding on_commentator_broadcast_def Let_def by simp


lemma outline_public_broadcast:
  "outline (on_public_broadcast jp pl st) = outlinePush (js ''public_broadcast'') (outline st)"
  unfolding on_public_broadcast_def Let_def
  by (simp split: option.split prod.split)

lemma compactTrackSize_pos: "compactTrackSize pl = Some t \<Longrightarrow> 0 < t"
  by (simp add: compactTrackSize_def Let_def split: if_splits)

lemma outline_trackLength_update [simp]:
  "outline (st\<lparr>s_trackLength := t\<rparr>) = outlineHint t (outline st)"
  by (simp add: outline_def outlineHint_def)

lemma js_inject [simp]: "js a = js b \<longleftrightarrow> a = b"
proof -
  have "inj (of_char :: char \<Rightarrow> nat)"
    by (rule injI) (metis char_of_char)
  then show ?thesis
    by (simp add: js_def inj_map_eq_map)
qed

lemma outline_processMessage:
  "outline (processMessage jp msg st) = nextOutline msg (outline st)"
proof -
  obtain fs ix cur where ol: "outline st = (fs, ix, cur)"
    by (cases "outline st") auto
  have cur: "s_trackLength st = cur"
    using ol by (simp add: outline_def)
  define st1 where "st1 =
     (case compactTrackSize (asRecord (field msg ''payload'')) of
        Some maybeTrackSize \<Rightarrow>
          if maybeTrackSize > 0
          then (st\<lparr>s_tick := max (s_tick st) (asNumber (field msg ''turn'') (s_tick st))\<rparr>)
                 \<lparr>s_trackLength := maybeTrackSize\<rparr>
          else st\<lparr>s_tick := max (s_tick st) (asNumber (field msg ''turn'') (s_tick st))\<rparr>
      | None \<Rightarrow> st\<lparr>s_tick := max (s_tick st) (asNumber (field msg ''turn'') (s_tick st))\<rparr>)"
  have o1: "outline st1 = (fs, ix, hintedTrack msg cur)"
    unfolding st1_def hintedTrack_def
    by (auto simp add: ol outlineHint_def dest: compactTrackSize_pos split: option.splits)
  have pm: "processMessage jp msg st =
     (let event = asString (field msg ''event'') [];
          pl = asRecord (field msg ''payload'');
          messageType = asString (field msg ''message_type'') []
      in if event = js ''game_started'' then on_game_started pl st1
         else if messageType = js ''agent_interaction'' then on_agent_interaction jp event pl st1
         else if event = js ''player_moved'' then on_player_moved pl st1
         else if event = js ''player_hit'' then on_player_hit pl st1
         else if event = js ''truck_moved'' then on_truck_moved pl st1
         else if event = js ''commentator_broadcast'' then on_commentator_broadcast jp pl st1
         else if event = js ''public_broadcast'' then on_public_broadcast jp pl st1
         else if event = js ''turn_finished'' \<or> event = js ''turn_started'' then pushFrame event st1
         else st1)"
    unfolding processMessage_def st1_def Let_def by simp
  show ?thesis
    unfolding pm Let_def
    by (simp add: ol o1 nextOutline_def emittedLabel_def Let_def outlinePush_def outlineAct_def
          outline_game_started outline_agent_interaction outline_player_moved outline_player_hit
          outline_truck_moved outline_commentator_broadcast outline_public_broadcast)
qed


lemma outline_processMessages:
  "processMessages jp msgs st = Some st' \<Longrightarrow> outline st' = fold nextOutline msgs (outline st)"
proof (induction msgs arbitrary: st)
  case Nil
  then show ?case by simp
next
  case (Cons m ms)
  then show ?case
    by (simp add: outline_processMessage split: if_splits)
qed

lemma processMessages_None:
  "processMessages jp msgs st = None \<longleftrightarrow> JNull \<in> set msgs \<or> JUndefined \<in> set msgs"
  by (induction msgs arbitrary: st) auto

lemma outline_ensureCommentatorExists [simp]: "outline (ensureCommentatorExists st) = outline st"
  by (simp add: ensureCommentatorExists_def Let_def)

lemma outline_clampPlayers [simp]: "outline (clampPlayers st) = outline st"
  by (simp add: clampPlayers_def)

lemma outline_seedPlayer [simp]: "outline (seedPlayer item st) = outline st"
  by (simp add: seedPlayer_def Let_def)

lemma outline_seededState: "outline (seededState env) = ([], [], FALLBACK_TRACK)"
proof -
  have "outline (fold seedPlayer xs st) = outline st" for xs st
    by (induction xs arbitrary: st) simp_all
  then show ?thesis
    by (simp add: seededState_def) (simp add: outline_def initialState_def)
qed

lemma repairFrame_shape [simp]:
  "label (repairFrame acts i prev cur) = label cur"
  "track_length (state (repairFrame acts i prev cur)) = track_length (state cur)"
  by (simp_all add: repairFrame_def)

lemma repairFrom_shape:
  "map (\<lambda>f. (label f, track_length (state f))) (repairFrom acts i prev fs)
     = map (\<lambda>f. (label f, track_length (state f))) fs"
  by (induction fs arbitrary: i prev) (simp_all add: Let_def)

lemma repairPass_shape:
  "map (\<lambda>f. (label f, track_length (state f))) (repairPass acts fs)
     = map (\<lambda>f. (label f, track_length (state f))) fs"
  by (cases fs) (simp_all add: repairPass_def repairFrom_shape)

lemma parseLegacyExport_outline:
  assumes "parseLegacyExport jp input = Some tml"
  shows "\<exists>cur. fold nextOutline (coreMessagesOf input) ([], [], FALLBACK_TRACK)
           = (map (\<lambda>f. (label f, track_length (state f))) (frames tml), map frameIndex (actions tml), cur)"
proof (cases "coreMessagesOf input = []")
  case True
  then have "tml = emptyTimeline"
    using assms by (simp add: parseLegacyExport_def coreMessagesOf_def)
  then show ?thesis
    using True by (simp add: emptyTimeline_def)
next
  case False
  then obtain st where st: "processMessages jp (coreMessagesOf input) (seededState (asRecord input)) = Some st"
    and tml: "tml = \<lparr> frames = repairPass (s_actions (ensureCommentatorExists (clampPlayers st)))
                               (s_frames (ensureCommentatorExists (clampPlayers st))),
                    actions = s_actions (ensureCommentatorExists (clampPlayers st)),
                    discussions = s_discussions (ensureCommentatorExists (clampPlayers st)) \<rparr>"
    using assms
    by (auto simp add: parseLegacyExport_def coreMessagesOf_def Let_def split: option.splits)
  define st' where "st' = ensureCommentatorExists (clampPlayers st)"
  have "outline st' = fold nextOutline (coreMessagesOf input) ([], [], FALLBACK_TRACK)"
    using outline_processMessages [OF st] by (simp add: outline_seededState st'_def)
  then have "fold nextOutline (coreMessagesOf input) ([], [], FALLBACK_TRACK)
      = (map (\<lambda>f. (label f, track_length (state f))) (s_frames st'),
         map frameIndex (s_actions st'), s_trackLength st')"
    by (simp only: outline_def)
  then show ?thesis
    unfolding tml st'_def [symmetric] by (simp add: repairPass_shape)
qed

lemma parseLegacyExport_None:
  "parseLegacyExport jp input = None \<longleftrightarrow>
     JNull \<in> set (coreMessagesOf input) \<or> JUndefined \<in> set (coreMessagesOf input)"
proof (cases "coreMessagesOf input = []")
  case True
  then show ?thesis
    by (simp add: parseLegacyExport_def coreMessagesOf_def)
next
  case False
  then show ?thesis
    using processMessages_None [of jp "coreMessagesOf input" "seededState (asRecord input)"]
    by (auto simp add: parseLegacyExport_def coreMessagesOf_def Let_def split: option.splits)
qed

lemma fold_nextOutline_tracks:
  "map snd (fst (fold nextOutline msgs (fs, ix, cur))) = map snd fs @ expectedTracks cur msgs"
  by (induction msgs arbitrary: fs ix cur)
     (simp_all add: nextOutline_def Let_def split: option.splits)

lemma goodOutline_push:
  assumes "goodOutline (fs, ix, cur)"
  shows "goodOutline (fs @ [(l, c)], ix, c')"
    and "goodOutline (fs @ [(js ''player_moved'', c)], ix @ [int (length fs)], c')"
proof -
  have s: "sorted_wrt (<) ix"
    and b: "\<And>i. i \<in> set ix \<Longrightarrow> 0 \<le> i \<and> i < int (length fs) \<and> fst (fs ! nat i) = js ''player_moved''"
    using assms by (auto simp add: goodOutline_def)
  have old: "0 \<le> i \<and> i < int (length (fs @ [x])) \<and> fst ((fs @ [x]) ! nat i) = js ''player_moved''"
    if "i \<in> set ix" for i x
  proof -
    have "nat i < length fs" using b [OF that] by linarith
    then show ?thesis using b [OF that] by (simp add: nth_append)
  qed
  show "goodOutline (fs @ [(l, c)], ix, c')"
    unfolding goodOutline_def using s old by simp
  have new: "0 \<le> int (length fs) \<and> int (length fs) < int (length (fs @ [(js ''player_moved'', c)]))
      \<and> fst ((fs @ [(js ''player_moved'', c)]) ! nat (int (length fs))) = js ''player_moved''"
    by simp
  have lt: "i < int (length fs)" if "i \<in> set ix" for i
    using b [OF that] by simp
  have "sorted_wrt (<) (ix @ [int (length fs)])"
    using s lt by (simp add: sorted_wrt_append)
  then show "goodOutline (fs @ [(js ''player_moved'', c)], ix @ [int (length fs)], c')"
    unfolding goodOutline_def using old new by auto
qed

lemma goodOutline_next: "goodOutline ol \<Longrightarrow> goodOutline (nextOutline msg ol)"
proof -
  assume g: "goodOutline ol"
  obtain fs ix cur where ol: "ol = (fs, ix, cur)" by (cases ol) auto
  have g0: "goodOutline (fs, ix, c)" for c
    using g by (simp add: goodOutline_def ol)
  show ?thesis
    unfolding ol nextOutline_def Let_def
    using g0 goodOutline_push [OF g0]
    by (simp split: option.split)
qed

lemma goodOutline_fold: "goodOutline ol \<Longrightarrow> goodOutline (fold nextOutline msgs ol)"
  by (induction msgs arbitrary: ol) (simp_all add: goodOutline_next)

section \<open>Evaluating the outline of sample exports\<close>

lemma coreMessagesOf_sampleExport [simp]: "coreMessagesOf (sampleExport msgs) = msgs"
  by (simp add: coreMessagesOf_def sampleExport_def)

lemma sampleMessage_not_null [simp]:
  "sampleMessage ev pl \<noteq> JNull" "sampleMessage ev pl \<noteq> JUndefined"
  "JNull \<noteq> sampleMessage ev pl" "JUndefined \<noteq> sampleMessage ev pl"
  by (simp_all add: sampleMessage_def)

lemma emittedLabel_sampleMessage:
  "emittedLabel (sampleMessage ev pl) =
     (if ev \<in> set [''game_started'', ''player_moved'', ''player_hit'', ''truck_moved'',
                    ''commentator_broadcast'', ''public_broadcast'', ''turn_finished'', ''turn_started'']
      then Some (js ev) else None)"
proof -
  have "js ''agent_interaction'' \<noteq> []" by (simp add: js_def)
  then show ?thesis
    by (auto simp add: emittedLabel_def sampleMessage_def Let_def)
qed

lemma hintedTrack_sampleHint: "0 < n \<Longrightarrow> hintedTrack (sampleMessage ev (sampleHint n)) cur = n"
  by (simp add: hintedTrack_def sampleMessage_def sampleHint_def compactTrackSize_def Let_def)

lemma hintedTrack_no_request:
  "map_of pl (js ''request'') = None \<Longrightarrow> hintedTrack (sampleMessage ev pl) cur = cur"
  by (simp add: hintedTrack_def sampleMessage_def compactTrackSize_def Let_def)


section \<open>The repair pass, frame by frame\<close>

lemma length_repairFrom [simp]: "length (repairFrom acts i prev fs) = length fs"
  by (induction fs arbitrary: i prev) (simp_all add: Let_def)

lemma length_repairPass [simp]: "length (repairPass acts fs) = length fs"
  by (cases fs) (simp_all add: repairPass_def)




section \<open>What sanitisation keeps and what it removes\<close>

lemma split_first_None_iff: "split_first P s = None \<longleftrightarrow> (\<forall>n. \<not> P (drop n s))"
proof (induction s)
  case Nil
  then show ?case by simp
next
  case (Cons c cs)
  have "(\<forall>n. \<not> P (drop n (c # cs))) \<longleftrightarrow> \<not> P (c # cs) \<and> (\<forall>n. \<not> P (drop n cs))"
  proof
    assume a: "\<forall>n. \<not> P (drop n (c # cs))"
    have "\<not> P (c # cs)" using a [rule_format, of 0] by simp
    moreover have "\<not> P (drop n cs)" for n using a [rule_format, of "Suc n"] by simp
    ultimately show "\<not> P (c # cs) \<and> (\<forall>n. \<not> P (drop n cs))" by blast
  next
    assume a: "\<not> P (c # cs) \<and> (\<forall>n. \<not> P (drop n cs))"
    show "\<forall>n. \<not> P (drop n (c # cs))"
    proof
      fix n show "\<not> P (drop n (c # cs))" using a by (cases n) simp_all
    qed
  qed
  then show ?case
    using Cons.IH by (cases "split_first P cs") auto
qed

lemma replace_from_unmatched: "(\<forall>n. m (drop n s) = None) \<Longrightarrow> replace_from m 0 s = s"
proof (induction s)
  case Nil
  then show ?case by simp
next
  case (Cons c cs)
  have h: "m (c # cs) = None" using Cons.prems [rule_format, of 0] by simp
  have t: "\<forall>n. m (drop n cs) = None"
  proof
    fix n show "m (drop n cs) = None" using Cons.prems [rule_format, of "Suc n"] by simp
  qed
  show ?case using h Cons.IH [OF t] by simp
qed

lemma replace_first_unmatched: "(\<forall>n. m (drop n s) = None) \<Longrightarrow> replace_first m s = s"
proof (induction s)
  case Nil
  then show ?case by simp
next
  case (Cons c cs)
  have h: "m (c # cs) = None" using Cons.prems [rule_format, of 0] by simp
  have t: "\<forall>n. m (drop n cs) = None"
  proof
    fix n show "m (drop n cs) = None" using Cons.prems [rule_format, of "Suc n"] by simp
  qed
  show ?case using h Cons.IH [OF t] by simp
qed

lemma startsWith_Cons: "startsWith t (c # pat) \<longleftrightarrow> (\<exists>xs. t = c # xs \<and> startsWith xs pat)"
  by (cases t) (auto simp add: startsWith_def)

lemma startsWith_ci_Cons:
  "startsWith_ci t (c # pat) \<longleftrightarrow> (\<exists>x xs. t = x # xs \<and> ci_unit x c \<and> startsWith_ci xs pat)"
  by (cases t) (auto simp add: startsWith_ci_def)

lemma startsWith_Nil [simp]: "startsWith t []"
  by (simp add: startsWith_def)

lemma startsWith_ci_fence_json: "startsWith_ci t fence_json \<Longrightarrow> startsWith t fence"
  by (auto simp add: fence_json_def fence_def startsWith_Cons startsWith_ci_Cons ci_unit_def)

lemma no_fence_drop: "\<not> includes_str s fence \<Longrightarrow> \<not> startsWith (drop n s) fence"
  by (simp add: includes_str_def split_first_None_iff)

lemma dropWhile_is_drop: "\<exists>k. dropWhile P xs = drop k xs"
  by (metis dropWhile_eq_drop)

lemma no_fence_matchers:
  assumes "\<not> includes_str s fence"
  shows "json_block (drop n s) = None"
    and "fenced_block (drop n s) = None"
    and "open_json_block (drop n s) = None"
    and "backtick_run (drop n s) = None"
proof -
  have nf: "\<not> startsWith (drop k s) fence" for k
    using assms by (rule no_fence_drop)
  show "json_block (drop n s) = None"
    using nf [of n] startsWith_ci_fence_json [of "drop n s"] by (auto simp add: json_block_def)
  show "fenced_block (drop n s) = None"
    using nf [of n] by (simp add: fenced_block_def)
  show "backtick_run (drop n s) = None"
    using nf [of n] by (simp add: backtick_run_def)
  obtain k where k: "dropWhile is_space (drop n s) = drop k (drop n s)"
    using dropWhile_is_drop by blast
  have "\<not> startsWith (dropWhile is_space (drop n s)) fence"
    using nf [of "n + k"] by (simp add: k add.commute)
  then show "open_json_block (drop n s) = None"
    using startsWith_ci_fence_json [of "dropWhile is_space (drop n s)"]
    by (auto simp add: open_json_block_def)
qed


lemma length_tool_calls_key: "length tool_calls_key = 12"
  by (simp add: tool_calls_key_def js_def)

lemma key_at_append:
  assumes "key_at ci t"
  shows "key_at ci (t @ b)"
proof -
  have len: "12 \<le> length t"
  proof (cases ci)
    case True
    then show ?thesis
      using assms by (simp add: key_at_def startsWith_ci_def length_tool_calls_key)
  next
    case False
    then have "take 12 t = tool_calls_key"
      using assms by (simp add: key_at_def startsWith_def length_tool_calls_key)
    then have "length (take 12 t) = 12"
      by (simp add: length_tool_calls_key)
    then show ?thesis by simp
  qed
  have pre: "take 12 (t @ b) = take 12 t"
    using len by simp
  obtain c r where d: "dropWhile is_space (drop 12 t) = c # r" and c: "c = 58"
    using assms by (auto simp add: key_at_def length_tool_calls_key split: list.splits)
  have "c \<in> set (drop 12 t)"
    using d set_dropWhileD [of c is_space "drop 12 t"] by simp
  moreover have "\<not> is_space c"
    using d hd_dropWhile [of is_space "drop 12 t"] by simp
  ultimately have "dropWhile is_space (drop 12 t @ b) = dropWhile is_space (drop 12 t) @ b"
    by (rule dropWhile_append1)
  then have d': "dropWhile is_space (drop 12 (t @ b)) = c # (r @ b)"
    using len d by simp
  have p2: "(case dropWhile is_space (drop (length tool_calls_key) (t @ b)) of
               [] \<Rightarrow> False | x # _ \<Rightarrow> x = 58)"
    unfolding length_tool_calls_key d' using c by simp
  have p1: "(if ci then startsWith_ci (t @ b) tool_calls_key else startsWith (t @ b) tool_calls_key)"
  proof (cases ci)
    case True
    then have "list_all2 ci_unit (take 12 t) tool_calls_key"
      using assms by (simp add: key_at_def startsWith_ci_def length_tool_calls_key)
    then show ?thesis
      using True len by (simp add: startsWith_ci_def length_tool_calls_key)
  next
    case False
    then have "take 12 t = tool_calls_key"
      using assms by (simp add: key_at_def startsWith_def length_tool_calls_key)
    then show ?thesis
      using False len by (simp add: startsWith_def length_tool_calls_key)
  qed
  show ?thesis
    unfolding key_at_def using p1 p2 by blast
qed

lemma key_at_Nil [simp]: "\<not> key_at ci []"
  by (simp add: key_at_def startsWith_def startsWith_ci_def tool_calls_key_def)

lemma has_tool_calls_iff: "has_tool_calls ci s \<longleftrightarrow> (\<exists>n. key_at ci (drop n s))"
  by (simp add: has_tool_calls_def split_first_None_iff)

lemma has_tool_calls_infix:
  assumes "has_tool_calls ci u"
  shows "has_tool_calls ci (a @ u @ b)"
proof -
  obtain n where n: "key_at ci (drop n u)"
    using assms by (auto simp add: has_tool_calls_iff)
  have "n < length u"
  proof (rule ccontr)
    assume "\<not> n < length u"
    then have "drop n u = []" by simp
    then show False using n by simp
  qed
  then have "drop (length a + n) (a @ u @ b) = drop n u @ b"
    by simp
  then have "key_at ci (drop (length a + n) (a @ u @ b))"
    using key_at_append [OF n, of b] by (simp only:)
  then show ?thesis
    unfolding has_tool_calls_iff by blast
qed

lemma trailing_tool_object_None:
  assumes "\<not> has_tool_calls True s"
  shows "trailing_tool_object (drop n s) = None"
proof (cases "dropWhile is_space (drop n s)")
  case Nil
  show ?thesis unfolding trailing_tool_object_def Nil by simp
next
  case (Cons c body)
  obtain k where k: "dropWhile is_space (drop n s) = drop k (drop n s)"
    using dropWhile_is_drop by blast
  have s1: "s = take (n + k) s @ c # body"
    using Cons k by (metis append_take_drop_id drop_drop add.commute)
  define r where "r = rev (dropWhile is_space (rev body))"
  have "\<not> (r \<noteq> [] \<and> last r = 125 \<and> has_tool_calls True (butlast r))"
  proof
    assume a: "r \<noteq> [] \<and> last r = 125 \<and> has_tool_calls True (butlast r)"
    have "rev body = takeWhile is_space (rev body) @ dropWhile is_space (rev body)"
      by simp
    then have "body = r @ rev (takeWhile is_space (rev body))"
      unfolding r_def by (metis rev_append rev_rev_ident)
    then have "body = butlast r @ ([last r] @ rev (takeWhile is_space (rev body)))"
      using a by (metis append_assoc append_butlast_last_id)
    then have "s = (take (n + k) s @ [c]) @ butlast r @ ([last r] @ rev (takeWhile is_space (rev body)))"
      using s1 by (metis append_Cons append_Nil append_assoc)
    then have "has_tool_calls True s"
      using a has_tool_calls_infix [of True "butlast r" "take (n + k) s @ [c]"
                "[last r] @ rev (takeWhile is_space (rev body))"]
      by metis
    then show False using assms by simp
  qed
  then show ?thesis
    unfolding trailing_tool_object_def Cons list.case Let_def r_def [symmetric]
    by auto
qed

lemma replace_from_step:
  "replace_from m k (c # cs) =
     (if k = 0 then (case m (c # cs) of
                       Some (n, repl) \<Rightarrow> repl @ replace_from m (n - 1) cs
                     | None \<Rightarrow> c # replace_from m 0 cs)
      else replace_from m (k - 1) cs)"
  by (cases k) simp_all

lemmas sanitize_eval = replace_from_step
  sanitize_def replace_global_def json_block_def fenced_block_def open_json_block_def
  trailing_tool_object_def backtick_run_def startsWith_def startsWith_ci_def ci_unit_def
  has_tool_calls_def key_at_def tool_calls_key_def fence_def fence_json_def trim_def is_space_def
  includes_str_def js_def Let_def


text \<open>What a fenced block and a trailing tool-call object leave behind.\<close>

lemma no_backtick_no_fence: "96 \<notin> set s \<Longrightarrow> \<not> includes_str s fence"
proof
  assume a: "96 \<notin> set s" and "includes_str s fence"
  then obtain n where "startsWith (drop n s) fence"
    by (auto simp add: includes_str_def split_first_None_iff)
  then obtain xs where "drop n s = 96 # xs"
    by (auto simp add: fence_def startsWith_Cons)
  then have "96 \<in> set (drop n s)" by simp
  then show False using a set_drop_subset [of n s] by blast
qed

lemma split_first_Some: "split_first P s = Some (a, b) \<Longrightarrow> s = a @ b \<and> P b"
proof (induction s arbitrary: a)
  case Nil
  then show ?case by (simp split: if_splits)
next
  case (Cons c cs)
  show ?case
  proof (cases "P (c # cs)")
    case True
    then show ?thesis using Cons.prems by simp
  next
    case False
    then obtain a' where s: "split_first P cs = Some (a', b)" and a: "a = c # a'"
      using Cons.prems by (auto split: option.splits)
    show ?thesis using Cons.IH [OF s] a by simp
  qed
qed

lemma startsWith_fence_append [simp]: "startsWith (fence @ post) fence"
  by (simp add: startsWith_def)

lemma startsWith_fence_head: "startsWith (c # cs) fence \<Longrightarrow> c = 96"
  by (simp add: fence_def startsWith_Cons)

lemma split_first_fence:
  "96 \<notin> set body \<Longrightarrow>
     split_first (\<lambda>u. startsWith u fence) (body @ fence @ post) = Some (body, fence @ post)"
proof (induction body)
  case Nil
  obtain cs where cs: "fence @ post = 96 # cs" by (simp add: fence_def)
  have "startsWith (96 # cs) fence" unfolding cs [symmetric] by simp
  then show ?case by (simp add: cs)
next
  case (Cons c body)
  then have "\<not> startsWith (c # body @ fence @ post) fence"
    using startsWith_fence_head [of c "body @ fence @ post"] by auto
  then show ?case using Cons by simp
qed

lemma replace_from_prefix:
  assumes m: "\<And>t r. m t = Some r \<Longrightarrow> startsWith t fence"
    and "96 \<notin> set pre"
  shows "replace_from m 0 (pre @ rest) = pre @ replace_from m 0 rest"
  using assms(2)
proof (induction pre)
  case Nil
  then show ?case by simp
next
  case (Cons c pre)
  have "m (c # pre @ rest) = None"
  proof (cases "m (c # pre @ rest)")
    case None
    then show ?thesis .
  next
    case (Some r)
    then have "c = 96" using m startsWith_fence_head by blast
    then show ?thesis using Cons.prems by simp
  qed
  then show ?case using Cons by simp
qed

lemma replace_from_skip: "replace_from m (length xs) (xs @ ys) = replace_from m 0 ys"
  by (induction xs) simp_all

lemma json_block_fence: "json_block t = Some r \<Longrightarrow> startsWith t fence"
  using startsWith_ci_fence_json [of t] by (auto simp add: json_block_def split: if_splits)

lemma fenced_block_fence: "fenced_block t = Some r \<Longrightarrow> startsWith t fence"
  by (auto simp add: fenced_block_def split: if_splits)

lemma backtick_run_fence: "backtick_run t = Some r \<Longrightarrow> startsWith t fence"
  by (auto simp add: backtick_run_def split: if_splits)

lemma fenced_block_at:
  assumes "96 \<notin> set body"
  shows "fenced_block (fence @ body @ fence @ post) = Some (length (fence @ body @ fence), [])"
proof -
  have "drop 3 (fence @ body @ fence @ post) = body @ fence @ post"
    by (simp add: fence_def)
  then show ?thesis
    using split_first_fence [OF assms, of post]
    by (simp add: fenced_block_def) (simp add: fence_def)
qed

lemma replace_from_at_match:
  assumes "m (blk @ post) = Some (length blk, repl)" and "blk \<noteq> []"
  shows "replace_from m 0 (blk @ post) = repl @ replace_from m 0 post"
proof -
  obtain c cs where b: "blk = c # cs" using assms(2) by (cases blk) auto
  have "replace_from m 0 (blk @ post) = repl @ replace_from m (length cs) (cs @ post)"
    using assms(1) by (simp add: b)
  then show ?thesis by (simp only: replace_from_skip)
qed

lemma replace_from_plain:
  assumes m: "\<And>t r. m t = Some r \<Longrightarrow> startsWith t fence"
    and "96 \<notin> set s"
  shows "replace_from m 0 s = s"
  using replace_from_prefix [where rest = "[]", OF m assms(2)] by simp

lemma fenced_block_removed:
  assumes "96 \<notin> set pre" and "96 \<notin> set body" and "96 \<notin> set post"
  shows "replace_global fenced_block (pre @ fence @ body @ fence @ post) = pre @ post"
proof -
  have ne: "fence @ body @ fence \<noteq> []" by (simp add: fence_def)
  have a: "fenced_block ((fence @ body @ fence) @ post) = Some (length (fence @ body @ fence), [])"
    using fenced_block_at [OF assms(2), of post] by simp
  have "replace_from fenced_block 0 (pre @ (fence @ body @ fence) @ post)
      = pre @ replace_from fenced_block 0 ((fence @ body @ fence) @ post)"
    by (rule replace_from_prefix [OF fenced_block_fence assms(1)])
  also have "\<dots> = pre @ [] @ replace_from fenced_block 0 post"
    using replace_from_at_match [where m = fenced_block and repl = "[]" and blk = "fence @ body @ fence"
        and post = post, OF a ne]
    by simp
  also have "\<dots> = pre @ post"
    by (simp add: replace_from_plain [OF fenced_block_fence assms(3)])
  finally show ?thesis by (simp add: replace_global_def)
qed


lemma ticks_fence [simp]: "count_list fence 96 = 3"
  by (simp add: fence_def)

lemma ticks_drop: "count_list (drop n s) y \<le> count_list s y"
proof -
  have "count_list s y = count_list (take n s @ drop n s) y" by simp
  then show ?thesis by (simp only: count_list_append)
qed

lemma startsWith_fence_split: "startsWith t fence \<Longrightarrow> \<exists>u. t = fence @ u"
  by (auto simp add: fence_def startsWith_Cons)

lemma json_block_ticks:
  assumes "json_block t = Some r"
  shows "6 \<le> count_list t 96"
proof -
  have ci: "startsWith_ci t fence_json"
    using assms by (simp add: json_block_def split: if_splits)
  obtain b rest where sp: "split_first (\<lambda>u. startsWith u fence) (drop 7 t) = Some (b, rest)"
    using assms ci by (auto simp add: json_block_def split: option.splits)
  have d: "drop 7 t = b @ rest" and f: "startsWith rest fence"
    using split_first_Some [OF sp] by simp_all
  obtain u where u: "rest = fence @ u"
    using startsWith_fence_split [OF f] by blast
  obtain u0 where u0: "t = fence @ u0"
    using startsWith_fence_split [OF startsWith_ci_fence_json [OF ci]] by blast
  have "drop 7 t = drop 4 u0"
    by (simp add: u0 fence_def)
  then have e: "drop 4 u0 = b @ fence @ u"
    using d u by simp
  have "3 \<le> count_list (drop 4 u0) 96"
    unfolding e by simp
  then have "3 \<le> count_list u0 96"
    using ticks_drop [of 4 u0 96] by linarith
  moreover have "count_list t 96 = 3 + count_list u0 96"
    by (simp add: u0)
  ultimately show ?thesis by linarith
qed

lemma json_block_inside:
  assumes "96 \<notin> set body" and "96 \<notin> set post"
  shows "json_block (drop n (tl (fence @ body @ fence @ post))) = None"
proof (cases "json_block (drop n (tl (fence @ body @ fence @ post)))")
  case None
  then show ?thesis .
next
  case (Some r)
  have "tl (fence @ body @ fence @ post) = [96, 96] @ body @ fence @ post"
    by (simp add: fence_def)
  then have "count_list (tl (fence @ body @ fence @ post)) 96 = 5"
    using assms by simp
  then have "count_list (drop n (tl (fence @ body @ fence @ post))) 96 \<le> 5"
    using ticks_drop [of n "tl (fence @ body @ fence @ post)" 96] by simp
  then show ?thesis using json_block_ticks [OF Some] by simp
qed

lemma ci_json_letters:
  assumes "startsWith_ci u (js ''json'')"
  shows "4 \<le> length u \<and> 96 \<notin> set (take 4 u)"
  using assms
  by (auto simp add: js_def startsWith_ci_Cons ci_unit_def)

lemma json_block_body:
  assumes "startsWith_ci (fence @ body @ fence @ post) fence_json"
  shows "4 \<le> length body"
proof (rule ccontr)
  assume "\<not> 4 \<le> length body"
  then have l: "length body < 4" by simp
  have "startsWith_ci (body @ fence @ post) (js ''json'')"
    using assms by (simp add: fence_json_def fence_def startsWith_ci_Cons)
  then have n: "96 \<notin> set (take 4 (body @ fence @ post))"
    using ci_json_letters by blast
  have "take 4 (body @ fence @ post) = body @ take (4 - length body) (fence @ post)"
    using l by simp
  moreover have "take (4 - length body) (fence @ post) = 96 # take (3 - length body) (tl (fence @ post))"
    using l by (simp add: fence_def take_Cons')
  ultimately show False using n by simp
qed

lemma json_block_at:
  assumes "96 \<notin> set body"
  shows "json_block (fence @ body @ fence @ post) = None
       \<or> json_block (fence @ body @ fence @ post) = Some (length (fence @ body @ fence), [])
       \<or> json_block (fence @ body @ fence @ post)
            = Some (length (fence @ body @ fence), fence @ body @ fence)"
proof (cases "startsWith_ci (fence @ body @ fence @ post) fence_json")
  case False
  then show ?thesis by (simp add: json_block_def)
next
  case True
  have lb: "4 \<le> length body" by (rule json_block_body [OF True])
  have d: "drop 7 (fence @ body @ fence @ post) = drop 4 body @ fence @ post"
    using lb by (simp add: fence_def)
  have nb: "96 \<notin> set (drop 4 body)"
    using assms set_drop_subset [of 4 body] by blast
  have sp: "split_first (\<lambda>u. startsWith u fence) (drop 7 (fence @ body @ fence @ post))
      = Some (drop 4 body, fence @ post)"
    unfolding d by (rule split_first_fence [OF nb])
  have n: "7 + length (drop 4 body) + 3 = length (fence @ body @ fence)"
    using lb by (simp add: fence_def)
  have tk: "take (length (fence @ body @ fence)) (fence @ body @ fence @ post) = fence @ body @ fence"
    by simp
  show ?thesis
    using True by (simp only: json_block_def sp n tk Let_def if_True option.case prod.case) simp
qed

lemma json_block_kept_or_removed:
  assumes "96 \<notin> set pre" and "96 \<notin> set body" and "96 \<notin> set post"
  shows "replace_global json_block (pre @ fence @ body @ fence @ post) = pre @ post
       \<or> replace_global json_block (pre @ fence @ body @ fence @ post)
            = pre @ fence @ body @ fence @ post"
proof -
  define blk where "blk = fence @ body @ fence"
  have ne: "blk \<noteq> []" by (simp add: blk_def fence_def)
  have p: "replace_from json_block 0 (pre @ blk @ post)
      = pre @ replace_from json_block 0 (blk @ post)"
    by (rule replace_from_prefix [OF json_block_fence assms(1)])
  have q: "replace_from json_block 0 post = post"
    by (rule replace_from_plain [OF json_block_fence assms(3)])
  consider (none) "json_block (blk @ post) = None"
    | (gone) "json_block (blk @ post) = Some (length blk, [])"
    | (kept) "json_block (blk @ post) = Some (length blk, blk)"
    using json_block_at [OF assms(2), of post] by (auto simp add: blk_def)
  then have "replace_from json_block 0 (blk @ post) = post
      \<or> replace_from json_block 0 (blk @ post) = blk @ post"
  proof cases
    case none
    obtain cs where cs: "blk @ post = 96 # cs" by (simp add: blk_def fence_def)
    have t: "cs = tl (fence @ body @ fence @ post)"
      using cs by (simp add: blk_def)
    have "\<forall>n. json_block (drop n cs) = None"
      unfolding t using json_block_inside [OF assms(2,3)] by blast
    then have "replace_from json_block 0 cs = cs"
      by (rule replace_from_unmatched)
    then show ?thesis using none by (simp add: cs)
  next
    case gone
    show ?thesis
      using replace_from_at_match [where m = json_block and repl = "[]" and blk = blk and post = post,
          OF gone ne] q
      by simp
  next
    case kept
    show ?thesis
      using replace_from_at_match [where m = json_block and repl = blk and blk = blk and post = post,
          OF kept ne] q
      by simp
  qed
  then show ?thesis
    using p by (auto simp add: replace_global_def blk_def)
qed

lemma sanitize_after_blocks:
  assumes "\<not> includes_str s fence" and "\<not> has_tool_calls True s"
  shows "trim (replace_global backtick_run
           (replace_first trailing_tool_object (replace_global open_json_block s))) = trim s"
proof -
  have m3: "replace_global open_json_block s = s"
    unfolding replace_global_def
    by (rule replace_from_unmatched) (simp add: no_fence_matchers [OF assms(1)])
  have m4: "replace_first trailing_tool_object s = s"
    by (rule replace_first_unmatched) (simp add: trailing_tool_object_None [OF assms(2)])
  have m5: "replace_global backtick_run s = s"
    unfolding replace_global_def
    by (rule replace_from_unmatched) (simp add: no_fence_matchers [OF assms(1)])
  show ?thesis by (simp add: m3 m4 m5)
qed

lemma sanitize_fenced_block:
  assumes "96 \<notin> set pre" and "96 \<notin> set body" and "96 \<notin> set post"
    and "\<not> has_tool_calls True (pre @ post)"
  shows "sanitize (pre @ fence @ body @ fence @ post) = trim (pre @ post)"
proof -
  have nf: "\<not> includes_str (pre @ post) fence"
    using assms(1,3) by (intro no_backtick_no_fence) simp
  have plain: "replace_global fenced_block (pre @ post) = pre @ post"
    unfolding replace_global_def
    using no_fence_matchers(2) [OF nf] by (intro replace_from_unmatched) blast
  have "replace_global fenced_block (replace_global json_block (pre @ fence @ body @ fence @ post))
      = pre @ post"
    using json_block_kept_or_removed [OF assms(1,2,3)] fenced_block_removed [OF assms(1,2,3)] plain
    by auto
  then show ?thesis
    using sanitize_after_blocks [OF nf assms(4)] by (simp add: sanitize_def Let_def)
qed


lemma not_space_braces [simp]: "\<not> is_space 123" "\<not> is_space 125"
  by (simp_all add: is_space_def)

lemma trailing_tool_object_at:
  assumes "list_all is_space s" and "has_tool_calls True mid" and "list_all is_space ws"
  shows "trailing_tool_object (s @ [123] @ mid @ [125] @ ws)
           = Some (length (s @ [123] @ mid @ [125] @ ws), [])"
proof -
  have d: "dropWhile is_space (s @ [123] @ mid @ [125] @ ws) = 123 # mid @ [125] @ ws"
    using assms(1) by (simp add: dropWhile_append2 list_all_iff)
  have "\<And>x. x \<in> set (rev ws) \<Longrightarrow> is_space x"
    using assms(3) by (simp add: list_all_iff)
  then have "dropWhile is_space (rev ws @ 125 # rev mid) = dropWhile is_space (125 # rev mid)"
    by (rule dropWhile_append2)
  then have "dropWhile is_space (rev ws @ 125 # rev mid) = 125 # rev mid"
    by simp
  then have r: "rev (dropWhile is_space (rev (mid @ [125] @ ws))) = mid @ [125]"
    by simp
  show ?thesis
    unfolding trailing_tool_object_def d list.case r Let_def
    using assms(2) by simp
qed

lemma trailing_tool_object_before:
  assumes "\<not> list_all is_space (c # p)" and "123 \<notin> set (c # p)"
  shows "trailing_tool_object ((c # p) @ obj) = None"
proof -
  obtain x where x: "x \<in> set (c # p)" and nx: "\<not> is_space x"
    using assms(1) by (auto simp add: list_all_iff)
  have d: "dropWhile is_space ((c # p) @ obj) = dropWhile is_space (c # p) @ obj"
    using x nx by (rule dropWhile_append1)
  have ne: "dropWhile is_space (c # p) \<noteq> []"
    using x nx by (auto simp add: dropWhile_eq_Nil_conv)
  then obtain h rest where h: "dropWhile is_space (c # p) = h # rest"
    by (cases "dropWhile is_space (c # p)") auto
  have "h \<in> set (c # p)"
    using set_dropWhileD [of h is_space "c # p"] h by simp
  then have "h \<noteq> 123" using assms(2) by auto
  then show ?thesis
    unfolding trailing_tool_object_def d h by simp
qed

lemma trailing_tool_object_removed:
  assumes "123 \<notin> set pre" and "has_tool_calls True mid" and "list_all is_space ws"
  shows "\<exists>k. replace_first trailing_tool_object (pre @ [123] @ mid @ [125] @ ws) = take k pre
             \<and> list_all is_space (drop k pre)"
  using assms(1)
proof (induction pre)
  case Nil
  have "trailing_tool_object ([] @ [123] @ mid @ [125] @ ws)
      = Some (length ([] @ [123] @ mid @ [125] @ ws), [])"
    by (rule trailing_tool_object_at [OF _ assms(2,3)]) simp
  then show ?case by simp
next
  case (Cons c p)
  show ?case
  proof (cases "list_all is_space (c # p)")
    case True
    have "trailing_tool_object ((c # p) @ [123] @ mid @ [125] @ ws)
        = Some (length ((c # p) @ [123] @ mid @ [125] @ ws), [])"
      by (rule trailing_tool_object_at [OF True assms(2,3)])
    then have "replace_first trailing_tool_object ((c # p) @ [123] @ mid @ [125] @ ws) = take 0 (c # p)"
      by simp
    then show ?thesis using True by (intro exI [of _ 0]) simp
  next
    case False
    have n: "trailing_tool_object ((c # p) @ [123] @ mid @ [125] @ ws) = None"
      by (rule trailing_tool_object_before [OF False Cons.prems])
    obtain k where k: "replace_first trailing_tool_object (p @ [123] @ mid @ [125] @ ws) = take k p"
      and sp: "list_all is_space (drop k p)"
      using Cons.IH Cons.prems by auto
    have "replace_first trailing_tool_object ((c # p) @ [123] @ mid @ [125] @ ws) = take (Suc k) (c # p)"
      using n k by simp
    then show ?thesis using sp by (intro exI [of _ "Suc k"]) simp
  qed
qed

lemma trim_append_spaces:
  assumes "list_all is_space ws"
  shows "trim (a @ ws) = trim a"
proof (cases "list_all is_space a")
  case True
  then have e1: "dropWhile is_space (a @ ws) = []" and e2: "dropWhile is_space a = []"
    using assms by (simp_all add: dropWhile_eq_Nil_conv list_all_iff)
  show ?thesis by (simp only: trim_def e1 e2)
next
  case False
  then obtain x where "x \<in> set a" "\<not> is_space x"
    by (auto simp add: list_all_iff)
  then have "dropWhile is_space (a @ ws) = dropWhile is_space a @ ws"
    by (rule dropWhile_append1)
  then have e1: "rev (dropWhile is_space (a @ ws)) = rev ws @ rev (dropWhile is_space a)"
    by simp
  have "\<And>x. x \<in> set (rev ws) \<Longrightarrow> is_space x"
    using assms by (simp add: list_all_iff)
  then have e2: "dropWhile is_space (rev ws @ rev (dropWhile is_space a))
      = dropWhile is_space (rev (dropWhile is_space a))"
    by (rule dropWhile_append2)
  show ?thesis by (simp only: trim_def e1 e2)
qed

lemma sanitize_trailing_object:
  assumes "96 \<notin> set (pre @ [123] @ mid @ [125] @ ws)"
    and "123 \<notin> set pre" and "has_tool_calls True mid" and "list_all is_space ws"
  shows "sanitize (pre @ [123] @ mid @ [125] @ ws) = trim pre"
proof -
  define s where "s = pre @ [123] @ mid @ [125] @ ws"
  have nf: "\<not> includes_str s fence"
    using assms(1) unfolding s_def by (rule no_backtick_no_fence)
  have m1: "replace_global json_block s = s"
    unfolding replace_global_def
    using no_fence_matchers(1) [OF nf] by (intro replace_from_unmatched) blast
  have m2: "replace_global fenced_block s = s"
    unfolding replace_global_def
    using no_fence_matchers(2) [OF nf] by (intro replace_from_unmatched) blast
  have m3: "replace_global open_json_block s = s"
    unfolding replace_global_def
    using no_fence_matchers(3) [OF nf] by (intro replace_from_unmatched) blast
  obtain k where k: "replace_first trailing_tool_object s = take k pre"
    and sp: "list_all is_space (drop k pre)"
    using trailing_tool_object_removed [OF assms(2,3,4)] unfolding s_def by blast
  have nb: "96 \<notin> set (take k pre)"
    using assms(1) set_take_subset [of k pre] by auto
  have m5: "replace_global backtick_run (take k pre) = take k pre"
    unfolding replace_global_def by (rule replace_from_plain [OF backtick_run_fence nb])
  have "trim (take k pre @ drop k pre) = trim (take k pre)"
    by (rule trim_append_spaces [OF sp])
  then have t: "trim (take k pre) = trim pre" by simp
  have "sanitize s = trim (take k pre)"
    unfolding sanitize_def Let_def m1 m2 m3 k m5 ..
  then show ?thesis
    unfolding s_def t .
qed


lemma sanitize_plain:
  assumes "\<not> includes_str input fence"
    and "\<not> has_tool_calls True input"
  shows "sanitize input = trim input"
proof -
  have m1: "replace_global json_block input = input"
    unfolding replace_global_def
    using no_fence_matchers(1) [OF assms(1)] by (intro replace_from_unmatched) blast
  have m2: "replace_global fenced_block input = input"
    unfolding replace_global_def
    using no_fence_matchers(2) [OF assms(1)] by (intro replace_from_unmatched) blast
  show ?thesis
    using sanitize_after_blocks [OF assms] by (simp add: sanitize_def Let_def m1 m2)
qed


lemma parseAgentMessage_text:
  assumes "jsonParse raw = None \<and> input = raw
         \<or> (\<exists>parsed. jsonParse raw = Some parsed \<and> field parsed ''message'' = JStr input)
         \<or> (\<exists>parsed. jsonParse raw = Some parsed \<and> (\<forall>m. field parsed ''message'' \<noteq> JStr m)
               \<and> input = raw)"
  shows "parseAgentMessage jsonParse raw = sanitize input"
  using assms
proof (elim disjE conjE exE)
  assume "jsonParse raw = None" and "input = raw"
  then show ?thesis by (simp add: parseAgentMessage_def)
next
  fix parsed
  assume "jsonParse raw = Some parsed" and "field parsed ''message'' = JStr input"
  then show ?thesis by (simp add: parseAgentMessage_def)
next
  fix parsed
  assume p: "jsonParse raw = Some parsed" and n: "\<forall>m. field parsed ''message'' \<noteq> JStr m"
    and t: "input = raw"
  have "asString (field parsed ''message'') raw = raw"
    using n by (cases "field parsed ''message''") simp_all
  then show ?thesis by (simp add: parseAgentMessage_def p t)
qed

section \<open>The HP ceiling is an upper bound and never decreases\<close>

text \<open>
  At every point of the loop every hp of the registry and of the frames emitted so far is
  at most the current ceiling, and the ceiling only grows.  The lower bound 0 is another
  matter: see the claim C1 below.
\<close>

lemma list_all_update:
  "list_all P al \<Longrightarrow> P (k, v) \<Longrightarrow> list_all P (AList.update k v al)"
  by (induction al) auto

lemma list_all_map_entry:
  "list_all P al \<Longrightarrow> (\<And>v. P (k, v) \<Longrightarrow> P (k, f v)) \<Longrightarrow> list_all P (AList.map_entry k f al)"
  by (induction al) auto

lemma hpBelowCeiling_players:
  assumes "hpBelowCeiling st"
    and "list_all (\<lambda>(k, p). m_hp p \<le> s_maxHpSeen st) ps"
  shows "hpBelowCeiling (st\<lparr>s_players := ps\<rparr>)"
  using assms by (simp add: hpBelowCeiling_def)

lemma hpBelowCeiling_map_entry:
  assumes "hpBelowCeiling st"
    and "\<And>p. m_hp p \<le> s_maxHpSeen st \<Longrightarrow> m_hp (f p) \<le> s_maxHpSeen st"
  shows "hpBelowCeiling (st\<lparr>s_players := AList.map_entry k f (s_players st)\<rparr>)"
proof -
  have "list_all (\<lambda>(k, p). m_hp p \<le> s_maxHpSeen st) (AList.map_entry k f (s_players st))"
    using assms by (intro list_all_map_entry) (auto simp add: hpBelowCeiling_def)
  then show ?thesis
    using assms(1) by (rule hpBelowCeiling_players [rotated])
qed

lemma hpBelowCeiling_other [simp]:
  "hpBelowCeiling (st\<lparr>s_truck := t\<rparr>) = hpBelowCeiling st"
  "hpBelowCeiling (st\<lparr>s_discussions := ds\<rparr>) = hpBelowCeiling st"
  "hpBelowCeiling (st\<lparr>s_actions := acts\<rparr>) = hpBelowCeiling st"
  "hpBelowCeiling (st\<lparr>s_knownPositionByAgent := ks\<rparr>) = hpBelowCeiling st"
  "hpBelowCeiling (st\<lparr>s_inferredSpawnDone := ks\<rparr>) = hpBelowCeiling st"
  "hpBelowCeiling (st\<lparr>s_tick := k\<rparr>) = hpBelowCeiling st"
  "hpBelowCeiling (st\<lparr>s_trackLength := k\<rparr>) = hpBelowCeiling st"
  "hpBelowCeiling (st\<lparr>s_avatarById := av\<rparr>) = hpBelowCeiling st"
  "hpBelowCeiling (st\<lparr>s_aiNameById := an\<rparr>) = hpBelowCeiling st"
  "hpBelowCeiling (st\<lparr>s_aiIdByName := ai\<rparr>) = hpBelowCeiling st"
  "hpBelowCeiling (st\<lparr>s_logs := lg\<rparr>) = hpBelowCeiling st"
  "hpBelowCeiling (st\<lparr>s_seq := sq\<rparr>) = hpBelowCeiling st"
  "hpBelowCeiling (st\<lparr>s_lastIntentByAgent := li\<rparr>) = hpBelowCeiling st"
  "hpBelowCeiling (st\<lparr>s_discussionByTurnAgent := dt\<rparr>) = hpBelowCeiling st"
  "hpBelowCeiling (st\<lparr>s_actionByTurnAgent := dt\<rparr>) = hpBelowCeiling st"
  by (simp_all add: hpBelowCeiling_def)

lemma ceiling_ensurePlayer [simp]: "s_maxHpSeen (ensurePlayer a n v st) = s_maxHpSeen st"
  by (simp add: ensurePlayer_def Let_def)

lemma hpBelowCeiling_ensurePlayer:
  assumes "hpBelowCeiling st"
  shows "hpBelowCeiling (ensurePlayer a n v st)"
proof -
  define st1 where "st1 =
            (if map_of (s_players st) a = None then
               st\<lparr>s_players := AList.update a
                     \<lparr> m_player_id = a,
                       m_name = or_str n a,
                       m_avatar = or_str v [],
                       m_position = 0,
                       m_facing = 1,
                       m_vote_reverse = None,
                       m_hp = s_maxHpSeen st,
                       m_inventory = [],
                       m_message = [] \<rparr> (s_players st)\<rparr>
             else if n \<noteq> [] then
               st\<lparr>s_players := AList.map_entry a (\<lambda>c. c\<lparr>m_name := n\<rparr>) (s_players st)\<rparr>
             else st)"
  have c1: "s_maxHpSeen st1 = s_maxHpSeen st"
    by (simp add: st1_def)
  have h1: "hpBelowCeiling st1"
  proof (cases "map_of (s_players st) a = None")
    case True
    have "list_all (\<lambda>(k, p). m_hp p \<le> s_maxHpSeen st)
            (AList.update a
                     \<lparr> m_player_id = a,
                       m_name = or_str n a,
                       m_avatar = or_str v [],
                       m_position = 0,
                       m_facing = 1,
                       m_vote_reverse = None,
                       m_hp = s_maxHpSeen st,
                       m_inventory = [],
                       m_message = [] \<rparr> (s_players st))"
      using assms by (intro list_all_update) (simp_all add: hpBelowCeiling_def)
    then show ?thesis
      using assms True by (simp add: st1_def hpBelowCeiling_players)
  next
    case False
    have "hpBelowCeiling (st\<lparr>s_players := AList.map_entry a (\<lambda>c. c\<lparr>m_name := n\<rparr>) (s_players st)\<rparr>)"
      using assms by (rule hpBelowCeiling_map_entry) simp
    moreover have "st1 = (if n \<noteq> [] then
               st\<lparr>s_players := AList.map_entry a (\<lambda>c. c\<lparr>m_name := n\<rparr>) (s_players st)\<rparr>
             else st)"
      by (simp only: st1_def False if_False)
    ultimately show ?thesis
      using assms by (simp split: if_split)
  qed
  define st2 where "st2 =
            (if v \<noteq> [] then
               st1\<lparr>s_players := AList.map_entry a (\<lambda>c. c\<lparr>m_avatar := v\<rparr>) (s_players st1),
                    s_avatarById := AList.update a v (s_avatarById st1)\<rparr>
             else st1)"
  have h2: "hpBelowCeiling st2"
  proof (cases "v \<noteq> []")
    case True
    have "hpBelowCeiling (st1\<lparr>s_players := AList.map_entry a (\<lambda>c. c\<lparr>m_avatar := v\<rparr>) (s_players st1)\<rparr>)"
      using h1 by (rule hpBelowCeiling_map_entry) simp
    then show ?thesis by (simp add: st2_def True)
  next
    case False
    then show ?thesis using h1 by (simp add: st2_def)
  qed
  have "ensurePlayer a n v st =
      (if n \<noteq> [] then
           st2\<lparr>s_aiNameById := AList.update a n (s_aiNameById st2),
                s_aiIdByName := AList.update n a (s_aiIdByName st2)\<rparr>
         else st2)"
    by (simp add: ensurePlayer_def st1_def st2_def Let_def)
  then show ?thesis
    using h2 by simp
qed


lemma hpBelowCeiling_fold_ensurePlayer:
  "hpBelowCeiling st \<Longrightarrow>
   hpBelowCeiling (fold (\<lambda>x s. ensurePlayer (f x s) (g x s) (h x s) s) xs st)"
  by (induction xs arbitrary: st) (simp_all add: hpBelowCeiling_ensurePlayer)

lemma ceiling_fold_ensurePlayer [simp]:
  "s_maxHpSeen (fold (\<lambda>x s. ensurePlayer (f x s) (g x s) (h x s) s) xs st) = s_maxHpSeen st"
  by (induction xs arbitrary: st) simp_all

lemma ceiling_pushLog [simp]: "s_maxHpSeen (pushLog k p st) = s_maxHpSeen st"
  by (simp add: pushLog_def Let_def)

lemma hpBelowCeiling_pushLog [simp]: "hpBelowCeiling (pushLog k p st) = hpBelowCeiling st"
  by (simp add: pushLog_def Let_def)

lemma ceiling_pushFrame [simp]: "s_maxHpSeen (pushFrame l st) = s_maxHpSeen st"
  by (simp add: pushFrame_def)

lemma hpBelowCeiling_pushFrame: "hpBelowCeiling st \<Longrightarrow> hpBelowCeiling (pushFrame l st)"
  by (auto simp add: hpBelowCeiling_def pushFrame_def cloneState_def clonePlayer_def list_all_iff)

lemma ceiling_backfillFallbackHp: "s_maxHpSeen (backfillFallbackHp n st) = max n (s_maxHpSeen st)"
  by (simp add: backfillFallbackHp_def)

lemma hpBelowCeiling_backfillFallbackHp:
  assumes "hpBelowCeiling st"
  shows "hpBelowCeiling (backfillFallbackHp n st)"
proof (cases "n > s_maxHpSeen st")
  case False
  then show ?thesis using assms by (simp add: backfillFallbackHp_def)
next
  case True
  have p: "m_hp (upgradePlayer n q) \<le> n" if "m_hp q \<le> s_maxHpSeen st" for q
    using that True by (simp add: upgradePlayer_def)
  have f: "hp (upgradeFramePlayer n q) \<le> n" if "hp q \<le> s_maxHpSeen st" for q
    using that True by (simp add: upgradeFramePlayer_def)
  have "list_all (\<lambda>(k, q). m_hp q \<le> n) (map (\<lambda>(k, q). (k, upgradePlayer n q)) (s_players st))"
    using assms p by (auto simp add: hpBelowCeiling_def list_all_iff)
  moreover have "list_all (\<lambda>fr. list_all (\<lambda>q. hp q \<le> n) (players (state fr)))
                   (map (upgradeFrame n) (s_frames st))"
    using assms f by (auto simp add: hpBelowCeiling_def list_all_iff upgradeFrame_def)
  ultimately show ?thesis
    using True by (simp add: hpBelowCeiling_def backfillFallbackHp_def)
qed

lemma hpBelowCeiling_set_lives:
  assumes "hpBelowCeiling st"
  shows "hpBelowCeiling
    ((backfillFallbackHp lives st)\<lparr>s_players :=
        AList.map_entry a (\<lambda>c. c\<lparr>m_hp := lives\<rparr>) (s_players (backfillFallbackHp lives st))\<rparr>)"
proof -
  have "hpBelowCeiling (backfillFallbackHp lives st)"
    using assms by (rule hpBelowCeiling_backfillFallbackHp)
  then show ?thesis
    by (rule hpBelowCeiling_map_entry) (simp add: ceiling_backfillFallbackHp)
qed

lemma ceiling_backfillSpawn [simp]: "s_maxHpSeen (backfillSpawn a p d st) = s_maxHpSeen st"
  by (simp add: backfillSpawn_def Let_def)

lemma set_update_first:
  "q \<in> set (update_first Q f xs) \<Longrightarrow> q \<in> set xs \<or> (\<exists>x \<in> set xs. q = f x)"
  by (induction xs) (auto split: if_splits)

lemma hpBelowCeiling_backfillSpawn:
  assumes "hpBelowCeiling st"
  shows "hpBelowCeiling (backfillSpawn a p d st)"
proof -
  define st1 where "st1 = st\<lparr>s_players :=
                   AList.map_entry a (\<lambda>c. c\<lparr>m_position := p\<rparr>) (s_players st)\<rparr>"
  have h1: "hpBelowCeiling st1"
    unfolding st1_def using assms by (rule hpBelowCeiling_map_entry) simp
  have fr: "list_all (\<lambda>f. list_all (\<lambda>q. hp q \<le> s_maxHpSeen st1) (players (state f)))
             (map (patchSpawn a p d) (s_frames st1))"
  proof -
    have "hp q \<le> s_maxHpSeen st1"
      if f: "f \<in> set (s_frames st1)"
        and q: "q \<in> set (update_first (\<lambda>x. player_id x = a)
                      (\<lambda>fp. fp\<lparr>position := p, facing := d\<rparr>) (players (state f)))" for f q
    proof -
      have old: "hp x \<le> s_maxHpSeen st1" if "x \<in> set (players (state f))" for x
        using h1 f that by (auto simp add: hpBelowCeiling_def list_all_iff)
      from set_update_first [OF q] show ?thesis
        using old by auto
    qed
    then show ?thesis
      by (auto simp add: patchSpawn_def list_all_iff)
  qed
  have h2: "hpBelowCeiling (st1\<lparr>s_frames := map (patchSpawn a p d) (s_frames st1)\<rparr>)"
    using h1 fr by (simp add: hpBelowCeiling_def)
  show ?thesis
    using h1 h2 by (simp add: backfillSpawn_def Let_def st1_def [symmetric])
qed


lemma ceiling_players_update [simp]: "s_maxHpSeen (st\<lparr>s_players := ps\<rparr>) = s_maxHpSeen st"
  by simp

lemma movePlayer_ceiling:
  "hpBelowCeiling st \<Longrightarrow> hpBelowCeiling (movePlayer pl a player st)"
  "s_maxHpSeen st \<le> s_maxHpSeen (movePlayer pl a player st)"
proof -
  define declaredSign where "declaredSign = direction_sign (parseMoveDirection (field pl ''direction''))"
  define stepCount where "stepCount = moveSteps pl (map_of (s_lastIntentByAgent st) a)"
  define movedTo where "movedTo =
            (if (case field pl ''position'' of JNum n \<Rightarrow> True | _ \<Rightarrow> False)
             then wrapTrack (asNumber (field pl ''position'') (m_position player)) (s_trackLength st)
             else wrapTrack (js_add (m_position player) (js_mul declaredSign stepCount))
                    (s_trackLength st))"
  define inferredSpawn where "inferredSpawn =
            wrapTrack (js_sub movedTo (js_mul declaredSign stepCount)) (s_trackLength st)"
  define st1 where "st1 = (if a \<in> s_knownPositionByAgent st then st
                           else backfillSpawn a inferredSpawn declaredSign st)"
  define upd :: "MutablePlayer \<Rightarrow> MutablePlayer" where "upd = (\<lambda>c. c\<lparr> m_position := movedTo,
                            m_facing := (if inferDirectionByPosition
                                              (if a \<in> s_knownPositionByAgent st then m_position player
                                               else inferredSpawn)
                                              movedTo (parseMoveDirection (field pl ''direction''))
                                              stepCount (s_trackLength st1) = backward
                                         then - 1 else 1),
                            m_vote_reverse :=
                              (case field pl ''vote_reverse'' of JBool b \<Rightarrow> Some b | _ \<Rightarrow> None) \<rparr>)"
  define st2 where "st2 = st1\<lparr>s_players := AList.map_entry a upd (s_players st1)\<rparr>"
  define lives where "lives = asNumber (field pl ''lives'') (m_hp player)"
  have mp: "movePlayer pl a player st =
      (backfillFallbackHp lives st2)\<lparr>s_players :=
          AList.map_entry a (\<lambda>c. c\<lparr>m_hp := lives\<rparr>) (s_players (backfillFallbackHp lives st2))\<rparr>"
    unfolding movePlayer_def Let_def lives_def st2_def upd_def st1_def inferredSpawn_def movedTo_def
      stepCount_def declaredSign_def
    by simp
  have c1: "s_maxHpSeen st1 = s_maxHpSeen st" by (simp add: st1_def)
  have c2: "s_maxHpSeen st2 = s_maxHpSeen st" by (simp add: st2_def c1)
  show "s_maxHpSeen st \<le> s_maxHpSeen (movePlayer pl a player st)"
    by (simp add: mp ceiling_backfillFallbackHp c2)
  assume h: "hpBelowCeiling st"
  have h1: "hpBelowCeiling st1"
    using h by (simp add: st1_def hpBelowCeiling_backfillSpawn)
  have h2: "hpBelowCeiling st2"
    unfolding st2_def using h1 by (rule hpBelowCeiling_map_entry) (simp add: upd_def)
  show "hpBelowCeiling (movePlayer pl a player st)"
    unfolding mp using h2 by (rule hpBelowCeiling_set_lives)
qed

lemma recordResponse_ceiling:
  "hpBelowCeiling st \<Longrightarrow> hpBelowCeiling (recordResponse jp e pl a n st)"
  "s_maxHpSeen (recordResponse jp e pl a n st) = s_maxHpSeen st"
proof -
  define msgtext where "msgtext = parseAgentMessage jp (asString (field pl ''message'') [])"
  define sa where "sa = st\<lparr>s_players := AList.map_entry a (\<lambda>c. c\<lparr>m_message := msgtext\<rparr>) (s_players st)\<rparr>"
  define st1 where "st1 =
            (case map_of (s_players st) a of
               None \<Rightarrow> st
             | Some player \<Rightarrow>
                 if e \<noteq> js ''commentator_response'' then
                      pushLog
                        (if isCommentatorIdentity a (or_str n a)
                         then js ''commentary'' else js ''player_speak'')
                        (JObj [(js ''player_id'', JStr a), (js ''text'', JStr msgtext),
                               (js ''source'', JStr (js ''agent_interaction''))])
                        sa
                    else sa)"
  have c1: "s_maxHpSeen st1 = s_maxHpSeen st"
    by (simp add: st1_def sa_def split: option.splits)
  have rr: "s_maxHpSeen (recordResponse jp e pl a n st) = s_maxHpSeen st1
        \<and> hpBelowCeiling (recordResponse jp e pl a n st) = hpBelowCeiling st1"
    unfolding recordResponse_def Let_def msgtext_def [symmetric] sa_def [symmetric] st1_def [symmetric]
    by simp
  show "s_maxHpSeen (recordResponse jp e pl a n st) = s_maxHpSeen st"
    using rr c1 by simp
  assume h: "hpBelowCeiling st"
  have "hpBelowCeiling sa"
    unfolding sa_def using h by (rule hpBelowCeiling_map_entry) simp
  then have "hpBelowCeiling st1"
    using h by (simp add: st1_def split: option.splits)
  then show "hpBelowCeiling (recordResponse jp e pl a n st)"
    using rr by simp
qed

lemma routeBroadcast_ceiling:
  "hpBelowCeiling st \<Longrightarrow> hpBelowCeiling (routeBroadcast jp k fb ex n b st)"
  "s_maxHpSeen (routeBroadcast jp k fb ex n b st) = s_maxHpSeen st"
proof -
  show "s_maxHpSeen (routeBroadcast jp k fb ex n b st) = s_maxHpSeen st"
    by (simp add: routeBroadcast_def Let_def)
  assume h: "hpBelowCeiling st"
  define st1 where "st1 = ensurePlayer (get_or (s_aiIdByName st) n fb) n
                            (get_or (s_avatarById st) (get_or (s_aiIdByName st) n fb) []) st"
  have h1: "hpBelowCeiling st1"
    unfolding st1_def using h by (rule hpBelowCeiling_ensurePlayer)
  have "hpBelowCeiling (st1\<lparr>s_players := AList.map_entry (get_or (s_aiIdByName st) n fb)
            (\<lambda>c. c\<lparr>m_message := parseAgentMessage jp b\<rparr>) (s_players st1)\<rparr>)"
    using h1 by (rule hpBelowCeiling_map_entry) simp
  then show "hpBelowCeiling (routeBroadcast jp k fb ex n b st)"
    by (simp add: routeBroadcast_def Let_def st1_def)
qed

lemma systemChatter_ceiling [simp]:
  "hpBelowCeiling (systemChatter t st) = hpBelowCeiling st"
  "s_maxHpSeen (systemChatter t st) = s_maxHpSeen st"
  by (simp_all add: systemChatter_def)


lemma hpBelowCeiling_message:
  "hpBelowCeiling st \<Longrightarrow>
   hpBelowCeiling (st\<lparr>s_players := AList.map_entry k (m_message_update f) (s_players st)\<rparr>)"
  by (rule hpBelowCeiling_map_entry) simp_all

lemmas ceiling_kept = hpBelowCeiling_message
  hpBelowCeiling_ensurePlayer hpBelowCeiling_fold_ensurePlayer hpBelowCeiling_pushFrame
  hpBelowCeiling_backfillFallbackHp hpBelowCeiling_backfillSpawn movePlayer_ceiling(1)
  recordResponse_ceiling routeBroadcast_ceiling hpBelowCeiling_map_entry

lemma game_started_ceiling:
  "hpBelowCeiling st \<Longrightarrow> hpBelowCeiling (on_game_started pl st)"
  "s_maxHpSeen (on_game_started pl st) = s_maxHpSeen st"
  unfolding on_game_started_def Let_def
  by (simp_all add: ceiling_kept case_prod_unfold)

lemma agent_interaction_ceiling:
  "hpBelowCeiling st \<Longrightarrow> hpBelowCeiling (on_agent_interaction jp e pl st)"
  "s_maxHpSeen (on_agent_interaction jp e pl st) = s_maxHpSeen st"
  unfolding on_agent_interaction_def Let_def
  by (simp_all add: ceiling_kept)

lemma player_moved_ceiling:
  "hpBelowCeiling st \<Longrightarrow> hpBelowCeiling (on_player_moved pl st)"
  "s_maxHpSeen st \<le> s_maxHpSeen (on_player_moved pl st)"
proof -
  define a where "a = asString (field pl ''agent_id'') []"
  define st1 where "st1 = ensurePlayer a (asString (field pl ''ai_name'') a)
                  (asString (field pl ''avatar'') (get_or (s_avatarById st) a [])) st"
  define st2 where "st2 = (case map_of (s_players st1) a of
                   None \<Rightarrow> st1
                 | Some player \<Rightarrow> movePlayer pl a player st1)"
  have pm: "s_maxHpSeen (on_player_moved pl st) = s_maxHpSeen st2
      \<and> hpBelowCeiling (on_player_moved pl st) = hpBelowCeiling (pushFrame (js ''player_moved'') st2)"
    unfolding on_player_moved_def Let_def a_def [symmetric] st1_def [symmetric] st2_def [symmetric]
    by simp
  have c1: "s_maxHpSeen st1 = s_maxHpSeen st" by (simp add: st1_def)
  have "s_maxHpSeen st1 \<le> s_maxHpSeen st2"
    by (simp add: st2_def movePlayer_ceiling(2) split: option.splits)
  then show "s_maxHpSeen st \<le> s_maxHpSeen (on_player_moved pl st)"
    using pm c1 by simp
  assume h: "hpBelowCeiling st"
  have "hpBelowCeiling st1"
    unfolding st1_def using h by (rule hpBelowCeiling_ensurePlayer)
  then have "hpBelowCeiling st2"
    by (simp add: st2_def movePlayer_ceiling(1) split: option.splits)
  then show "hpBelowCeiling (on_player_moved pl st)"
    using pm by (simp add: hpBelowCeiling_pushFrame)
qed

lemma player_hit_ceiling:
  "hpBelowCeiling st \<Longrightarrow> hpBelowCeiling (on_player_hit pl st)"
  "s_maxHpSeen st \<le> s_maxHpSeen (on_player_hit pl st)"
proof -
  define a where "a = asString (field pl ''agent_id'') []"
  define st1 where "st1 = ensurePlayer a (asString (field pl ''ai_name'') a)
                  (asString (field pl ''avatar'') (get_or (s_avatarById st) a [])) st"
  define sb :: "MutablePlayer \<Rightarrow> ParseState" where "sb = (\<lambda>player.
      (backfillFallbackHp (asNumber (field pl ''lives'') (m_hp player)) st1)\<lparr>s_players :=
          AList.map_entry a (\<lambda>c. c\<lparr>m_hp := asNumber (field pl ''lives'') (m_hp player)\<rparr>)
            (s_players (backfillFallbackHp (asNumber (field pl ''lives'') (m_hp player)) st1))\<rparr>)"
  define st2 where "st2 =
            (case map_of (s_players st1) a of
               None \<Rightarrow> st1
             | Some player \<Rightarrow>
                 (case field pl ''respawned_position'' of
                       JNum respawn \<Rightarrow>
                         (sb player)\<lparr>s_players :=
                              AList.map_entry a
                                (\<lambda>c. c\<lparr>m_position := wrapTrack respawn (s_trackLength (sb player))\<rparr>)
                                (s_players (sb player)),
                            s_knownPositionByAgent := insert a (s_knownPositionByAgent (sb player))\<rparr>
                     | _ \<Rightarrow> sb player))"
  have ph: "on_player_hit pl st = pushFrame (js ''player_hit'') st2"
    unfolding on_player_hit_def Let_def a_def [symmetric] st1_def [symmetric] st2_def sb_def
    by simp
  have c1: "s_maxHpSeen st1 = s_maxHpSeen st" by (simp add: st1_def)
  have cb: "s_maxHpSeen st1 \<le> s_maxHpSeen (sb player)" for player
    by (simp add: sb_def ceiling_backfillFallbackHp)
  have "s_maxHpSeen st1 \<le> s_maxHpSeen st2"
    using cb by (simp add: st2_def split: option.splits json.splits)
  then show "s_maxHpSeen st \<le> s_maxHpSeen (on_player_hit pl st)"
    by (simp add: ph c1)
  assume h: "hpBelowCeiling st"
  have h1: "hpBelowCeiling st1"
    unfolding st1_def using h by (rule hpBelowCeiling_ensurePlayer)
  have hb: "hpBelowCeiling (sb player)" for player
    unfolding sb_def using h1 by (rule hpBelowCeiling_set_lives)
  have hr: "hpBelowCeiling ((sb player)\<lparr>s_players :=
                              AList.map_entry a
                                (\<lambda>c. c\<lparr>m_position := wrapTrack respawn (s_trackLength (sb player))\<rparr>)
                                (s_players (sb player))\<rparr>)" for player respawn
    using hb by (rule hpBelowCeiling_map_entry) simp
  have "hpBelowCeiling st2"
    using h1 hb hr by (simp add: st2_def split: option.splits json.splits)
  then show "hpBelowCeiling (on_player_hit pl st)"
    by (simp add: ph hpBelowCeiling_pushFrame)
qed

lemma truck_moved_ceiling:
  "hpBelowCeiling st \<Longrightarrow> hpBelowCeiling (on_truck_moved pl st)"
  "s_maxHpSeen (on_truck_moved pl st) = s_maxHpSeen st"
  unfolding on_truck_moved_def Let_def
  by (simp_all add: ceiling_kept)

lemma commentator_broadcast_ceiling:
  "hpBelowCeiling st \<Longrightarrow> hpBelowCeiling (on_commentator_broadcast jp pl st)"
  "s_maxHpSeen (on_commentator_broadcast jp pl st) = s_maxHpSeen st"
  unfolding on_commentator_broadcast_def Let_def
  by (simp_all add: ceiling_kept)

lemma public_broadcast_ceiling:
  "hpBelowCeiling st \<Longrightarrow> hpBelowCeiling (on_public_broadcast jp pl st)"
  "s_maxHpSeen (on_public_broadcast jp pl st) = s_maxHpSeen st"
  unfolding on_public_broadcast_def Let_def
  by (simp_all add: ceiling_kept split: option.split prod.split)


lemma processMessage_ceiling:
  "hpBelowCeiling st \<Longrightarrow> hpBelowCeiling (processMessage jp msg st)"
  "s_maxHpSeen st \<le> s_maxHpSeen (processMessage jp msg st)"
proof -
  define st1 where "st1 =
     (case compactTrackSize (asRecord (field msg ''payload'')) of
        Some maybeTrackSize \<Rightarrow>
          if maybeTrackSize > 0
          then (st\<lparr>s_tick := max (s_tick st) (asNumber (field msg ''turn'') (s_tick st))\<rparr>)
                 \<lparr>s_trackLength := maybeTrackSize\<rparr>
          else st\<lparr>s_tick := max (s_tick st) (asNumber (field msg ''turn'') (s_tick st))\<rparr>
      | None \<Rightarrow> st\<lparr>s_tick := max (s_tick st) (asNumber (field msg ''turn'') (s_tick st))\<rparr>)"
  have c1: "s_maxHpSeen st1 = s_maxHpSeen st"
    by (simp add: st1_def split: option.splits)
  have h1: "hpBelowCeiling st1 = hpBelowCeiling st"
    by (simp add: st1_def split: option.splits)
  have pm: "processMessage jp msg st =
     (let event = asString (field msg ''event'') [];
          pl = asRecord (field msg ''payload'');
          messageType = asString (field msg ''message_type'') []
      in if event = js ''game_started'' then on_game_started pl st1
         else if messageType = js ''agent_interaction'' then on_agent_interaction jp event pl st1
         else if event = js ''player_moved'' then on_player_moved pl st1
         else if event = js ''player_hit'' then on_player_hit pl st1
         else if event = js ''truck_moved'' then on_truck_moved pl st1
         else if event = js ''commentator_broadcast'' then on_commentator_broadcast jp pl st1
         else if event = js ''public_broadcast'' then on_public_broadcast jp pl st1
         else if event = js ''turn_finished'' \<or> event = js ''turn_started'' then pushFrame event st1
         else st1)"
    unfolding processMessage_def st1_def Let_def by simp
  show "s_maxHpSeen st \<le> s_maxHpSeen (processMessage jp msg st)"
    unfolding pm Let_def
    using player_moved_ceiling(2) [of st1] player_hit_ceiling(2) [of st1]
    by (simp add: c1 game_started_ceiling agent_interaction_ceiling truck_moved_ceiling
          commentator_broadcast_ceiling public_broadcast_ceiling)
  assume "hpBelowCeiling st"
  then have "hpBelowCeiling st1" by (simp add: h1)
  then show "hpBelowCeiling (processMessage jp msg st)"
    unfolding pm Let_def
    by (simp add: game_started_ceiling agent_interaction_ceiling player_moved_ceiling
          player_hit_ceiling truck_moved_ceiling commentator_broadcast_ceiling
          public_broadcast_ceiling hpBelowCeiling_pushFrame)
qed

lemma processMessages_append:
  "processMessages jp (xs @ ys) st =
     (case processMessages jp xs st of None \<Rightarrow> None | Some st' \<Rightarrow> processMessages jp ys st')"
  by (induction xs arbitrary: st) simp_all

lemma processMessages_ceiling:
  assumes "processMessages jp msgs st = Some st'" and "hpBelowCeiling st"
  shows "hpBelowCeiling st' \<and> s_maxHpSeen st \<le> s_maxHpSeen st'"
  using assms
proof (induction msgs arbitrary: st)
  case Nil
  then show ?case by simp
next
  case (Cons m ms)
  have r: "processMessages jp ms (processMessage jp m st) = Some st'"
    using Cons.prems(1) by (simp split: if_splits)
  have "hpBelowCeiling (processMessage jp m st)"
    using Cons.prems(2) by (rule processMessage_ceiling(1))
  from Cons.IH [OF r this] show ?case
    using processMessage_ceiling(2) [of st jp m] by simp
qed

lemma ceiling_at_every_point:
  assumes "processMessages jp (before @ after) st = Some st''" and "hpBelowCeiling st"
  shows "\<exists>st'. processMessages jp before st = Some st'
           \<and> hpBelowCeiling st'
           \<and> s_maxHpSeen st \<le> s_maxHpSeen st'
           \<and> s_maxHpSeen st' \<le> s_maxHpSeen st''"
proof -
  obtain st' where b: "processMessages jp before st = Some st'"
    and a: "processMessages jp after st' = Some st''"
    using assms(1) by (auto simp add: processMessages_append split: option.splits)
  have h: "hpBelowCeiling st' \<and> s_maxHpSeen st \<le> s_maxHpSeen st'"
    using processMessages_ceiling [OF b assms(2)] .
  then have "s_maxHpSeen st' \<le> s_maxHpSeen st''"
    using processMessages_ceiling [OF a] by simp
  then show ?thesis using b h by simp
qed

lemma hpBelowCeiling_ensureCommentatorExists:
  assumes "hpBelowCeiling st"
  shows "hpBelowCeiling (ensureCommentatorExists st)"
proof -
  define st1 where "st1 = ensurePlayer (js ''commentator'') commentator_name [] st"
  have h1: "hpBelowCeiling st1"
    unfolding st1_def using assms by (rule hpBelowCeiling_ensurePlayer)
  have "hpBelowCeiling (st1\<lparr>s_players := AList.map_entry (js ''commentator'')
                    (\<lambda>c. c\<lparr> m_position := 0,
                            m_facing := 1,
                            m_hp := max (m_hp c) (s_maxHpSeen st1),
                            m_message := or_str (m_message c) commentator_standby \<rparr>)
                    (s_players st1)\<rparr>)"
    using h1 by (rule hpBelowCeiling_map_entry) simp
  then show ?thesis
    using assms by (simp add: ensureCommentatorExists_def Let_def st1_def)
qed

lemma hpBelowCeiling_seededState: "hpBelowCeiling (seededState env)"
proof -
  have i: "hpBelowCeiling initialState"
    by (simp add: hpBelowCeiling_def initialState_def)
  have s: "hpBelowCeiling (seedPlayer item st)" if "hpBelowCeiling st" for item st
    using that by (simp add: seedPlayer_def Let_def hpBelowCeiling_ensurePlayer)
  have "hpBelowCeiling (fold seedPlayer xs st)" if "hpBelowCeiling st" for xs st
    using that by (induction xs arbitrary: st) (simp_all add: s)
  then show ?thesis
    using i by (simp add: seededState_def hpBelowCeiling_ensureCommentatorExists)
qed

lemma ceiling_seededState: "s_maxHpSeen (seededState env) = FALLBACK_HP"
proof -
  have s: "s_maxHpSeen (seedPlayer item st) = s_maxHpSeen st" for item st
    by (simp add: seedPlayer_def Let_def)
  have "s_maxHpSeen (fold seedPlayer xs st) = s_maxHpSeen st" for xs st
    by (induction xs arbitrary: st) (simp_all add: s)
  then show ?thesis
    by (simp add: seededState_def ensureCommentatorExists_def Let_def initialState_def)
qed

lemma repairPlayer_hp [simp]: "hp (repairPlayer prevs l tr act p) = hp p"
  by (simp add: repairPlayer_def Let_def split: option.splits)

lemma repairFrame_hp [simp]:
  "map hp (players (state (repairFrame acts i prev cur))) = map hp (players (state cur))"
  by (simp add: repairFrame_def comp_def)

lemma repairFrom_hp:
  "map (\<lambda>f. map hp (players (state f))) (repairFrom acts i prev fs)
     = map (\<lambda>f. map hp (players (state f))) fs"
  by (induction fs arbitrary: i prev) (simp_all add: Let_def)

lemma repairPass_hp:
  "map (\<lambda>f. map hp (players (state f))) (repairPass acts fs)
     = map (\<lambda>f. map hp (players (state f))) fs"
  by (cases fs) (simp_all add: repairPass_def repairFrom_hp)

lemma frames_hp_below_ceiling:
  assumes "parseLegacyExport jp input = Some t" and "coreMessagesOf input \<noteq> []"
  shows "\<exists>st. processMessages jp (coreMessagesOf input) (seededState (asRecord input)) = Some st
           \<and> FALLBACK_HP \<le> s_maxHpSeen st
           \<and> list_all (list_all (\<lambda>h. h \<le> s_maxHpSeen st))
                (map (\<lambda>f. map hp (players (state f))) (frames t))"
proof -
  obtain st where st: "processMessages jp (coreMessagesOf input) (seededState (asRecord input)) = Some st"
    and fr: "frames t = repairPass (s_actions (ensureCommentatorExists (clampPlayers st)))
                               (s_frames (ensureCommentatorExists (clampPlayers st)))"
    using assms
    by (auto simp add: parseLegacyExport_def coreMessagesOf_def Let_def split: option.splits)
  have h: "hpBelowCeiling st \<and> s_maxHpSeen (seededState (asRecord input)) \<le> s_maxHpSeen st"
    using processMessages_ceiling [OF st hpBelowCeiling_seededState] .
  have same: "s_frames (ensureCommentatorExists (clampPlayers st)) = s_frames st"
    by (simp add: ensureCommentatorExists_def clampPlayers_def ensurePlayer_def Let_def)
  have "list_all (list_all (\<lambda>h. h \<le> s_maxHpSeen st))
          (map (\<lambda>f. map hp (players (state f))) (s_frames st))"
    using h by (simp add: hpBelowCeiling_def list_all_iff)
  then show ?thesis
    using st h by (auto simp add: fr repairPass_hp same ceiling_seededState)
qed

section \<open>Claims\<close>

text \<open>
  C2. The direction resolved for a move compares the wrapped positions before and after
  with the declared step count.  Positions are integers; the track length and the step
  count are integers of magnitude at most \<open>2 ^ 52\<close>, so that the arithmetic on doubles
  is exact.  With \<open>n\<close> the track length (at least 1), the forward circular delta is
  \<open>(t - f) mod n\<close> and the backward one is \<open>(f - t) mod n\<close>.  If one of the two
  equals the declared steps, the chosen interpretation has that delta; the interpretation
  with the strictly smaller absolute error is chosen; on a tie the declared direction is
  kept.  A move from 5 to 8 on a track of 20 cells with 3 steps resolves to forward for
  both declared directions.
\<close>

theorem inferDirectionByPosition_choice:
  fixes f t s L :: int
  assumes "L \<le> 2 ^ 52" and "\<bar>s\<bar> \<le> 2 ^ 52"
  shows "(let n = max 1 L;
              fwd = (t - f) mod n;
              bwd = (f - t) mod n;
              r = inferDirectionByPosition (of_int f) (of_int t) d (of_int s) (of_int L)
          in (fwd = s \<or> bwd = s \<longrightarrow> (case r of forward \<Rightarrow> fwd | backward \<Rightarrow> bwd) = s)
           \<and> (\<bar>fwd - s\<bar> < \<bar>bwd - s\<bar> \<longrightarrow> r = forward)
           \<and> (\<bar>bwd - s\<bar> < \<bar>fwd - s\<bar> \<longrightarrow> r = backward)
           \<and> (\<bar>fwd - s\<bar> = \<bar>bwd - s\<bar> \<longrightarrow> r = d))
         \<and> inferDirectionByPosition 5 8 forward 3 20 = forward
         \<and> inferDirectionByPosition 5 8 backward 3 20 = forward"
proof -
  have ex: "inferDirectionByPosition 5 8 dd 3 20 = forward" for dd
    using inferDirectionByPosition_int [of 20 3 5 8 dd] by simp
  define fwd where "fwd = (t - f) mod max 1 L"
  define bwd where "bwd = (f - t) mod max 1 L"
  define r where "r = inferDirectionByPosition (of_int f) (of_int t) d (of_int s) (of_int L)"
  have r: "r = (if \<bar>fwd - s\<bar> < \<bar>bwd - s\<bar> then forward
                else if \<bar>bwd - s\<bar> < \<bar>fwd - s\<bar> then backward else d)"
    unfolding r_def fwd_def bwd_def by (rule inferDirectionByPosition_int [OF assms])
  have exact: "fwd = s \<or> bwd = s \<longrightarrow> (case r of forward \<Rightarrow> fwd | backward \<Rightarrow> bwd) = s"
    by (cases d; cases "fwd = s"; cases "bwd = s"; simp add: r)
  have lt: "\<bar>fwd - s\<bar> < \<bar>bwd - s\<bar> \<longrightarrow> r = forward"
    by (simp add: r)
  have gt: "\<bar>bwd - s\<bar> < \<bar>fwd - s\<bar> \<longrightarrow> r = backward"
    by (simp add: r)
  have tie: "\<bar>fwd - s\<bar> = \<bar>bwd - s\<bar> \<longrightarrow> r = d"
    by (simp add: r)
  show ?thesis
    unfolding Let_def
    using exact lt gt tie ex [of forward] ex [of backward]
    by (simp only: r_def fwd_def bwd_def simp_thms)
qed

theorem inferDirectionByPosition_choice_witness:
  "inferDirectionByPosition 5 8 backward 3 20 = forward
   \<and> inferDirectionByPosition 8 5 forward 3 20 = backward
   \<and> inferDirectionByPosition 45 8 backward 3 20 = forward
   \<and> inferDirectionByPosition 0 3 backward 2 6 = backward
   \<and> inferDirectionByPosition 0 3 forward 2 6 = forward"
  using inferDirectionByPosition_choice [of 20 3 8 5 backward]
        inferDirectionByPosition_choice [of 20 3 5 8 forward]
        inferDirectionByPosition_choice [of 20 3 8 45 backward]
        inferDirectionByPosition_choice [of 6 2 3 0 backward]
        inferDirectionByPosition_choice [of 6 2 3 0 forward]
  by (simp add: Let_def)

text \<open>
  C9. If the export has no usable event list (the input is not an object, it has no
  \<open>core_messages\<close>, \<open>core_messages\<close> is not an array, or the array is empty),
  \<open>parseLegacyExport\<close> returns the timeline with no frames, no actions and no
  discussions; it does not throw.
\<close>

theorem parseLegacyExport_empty:
  assumes "\<forall>xs. field (asRecord input) ''core_messages'' = JArr xs \<longrightarrow> xs = []"
  shows "parseLegacyExport jsonParse input = Some \<lparr> frames = [], actions = [], discussions = [] \<rparr>"
proof -
  have "asArray (field (asRecord input) ''core_messages'') = []"
    using assms by (cases "field (asRecord input) ''core_messages''") simp_all
  then show ?thesis
    by (simp add: parseLegacyExport_def emptyTimeline_def)
qed

theorem parseLegacyExport_empty_witness:
  "parseLegacyExport (\<lambda>raw. None) JNull = Some \<lparr> frames = [], actions = [], discussions = [] \<rparr>
   \<and> parseLegacyExport (\<lambda>raw. None) (JObj [(js ''core_messages'', JArr [])])
       = Some \<lparr> frames = [], actions = [], discussions = [] \<rparr>
   \<and> parseLegacyExport (\<lambda>raw. None) (JObj [(js ''core_messages'', JStr (js ''none''))])
       = Some \<lparr> frames = [], actions = [], discussions = [] \<rparr>"
proof -
  have h1: "\<forall>xs. field (asRecord JNull) ''core_messages'' = JArr xs \<longrightarrow> xs = []"
    by simp
  have h2: "\<forall>xs. field (asRecord (JObj [(js ''core_messages'', JArr [])])) ''core_messages'' = JArr xs
         \<longrightarrow> xs = []"
    by simp
  have h3: "\<forall>xs. field (asRecord (JObj [(js ''core_messages'', JStr (js ''none''))])) ''core_messages''
               = JArr xs \<longrightarrow> xs = []"
    by simp
  show ?thesis
    using
      parseLegacyExport_empty [OF h1, of "\<lambda>raw. None"]
      parseLegacyExport_empty [OF h2, of "\<lambda>raw. None"]
      parseLegacyExport_empty [OF h3, of "\<lambda>raw. None"]
    by simp
qed

text \<open>
  C4. When \<open>backfillFallbackHp\<close> sees a ceiling above the current one, every player of
  every frame emitted so far whose hp is the placeholder \<open>FALLBACK_HP = 3\<close> gets the new
  ceiling as hp, and every player with another hp keeps it; nothing else in the frames
  changes, and the new ceiling is recorded.
\<close>

theorem backfillFallbackHp_placeholder_only:
  assumes "s_maxHpSeen st < nextMaxHp"
    and "i < length (s_frames st)"
    and "j < length (players (state (s_frames st ! i)))"
  shows "(let st' = backfillFallbackHp nextMaxHp st;
              p = players (state (s_frames st ! i)) ! j;
              p' = players (state (s_frames st' ! i)) ! j
          in FALLBACK_HP = 3
           \<and> s_maxHpSeen st' = nextMaxHp
           \<and> length (s_frames st') = length (s_frames st)
           \<and> length (players (state (s_frames st' ! i))) = length (players (state (s_frames st ! i)))
           \<and> (hp p = 3 \<longrightarrow> p' = p\<lparr>hp := nextMaxHp\<rparr>)
           \<and> (hp p \<noteq> 3 \<longrightarrow> p' = p))"
  using assms
  by (simp add: backfillFallbackHp_def upgradeFrame_def upgradeFramePlayer_def FALLBACK_HP_def Let_def)

theorem backfillFallbackHp_placeholder_only_witness:
  "(let st = initialState\<lparr>s_frames :=
               [sampleFrame ''game_started'' 48 [samplePlayer ''a'' 0 3, samplePlayer ''b'' 0 2]]\<rparr>;
        st' = backfillFallbackHp 5 st
    in s_maxHpSeen st < 5
     \<and> map (\<lambda>f. map hp (players (state f))) (s_frames st) = [[3, 2]]
     \<and> map (\<lambda>f. map hp (players (state f))) (s_frames st') = [[5, 2]]
     \<and> s_maxHpSeen st' = 5)"
proof -
  define st where "st = initialState\<lparr>s_frames :=
               [sampleFrame ''game_started'' 48 [samplePlayer ''a'' 0 3, samplePlayer ''b'' 0 2]]\<rparr>"
  have h: "s_maxHpSeen st < 5"
    by (simp add: st_def initialState_def FALLBACK_HP_def)
  have i0: "0 < length (s_frames st)" by (simp add: st_def)
  have j0: "0 < length (players (state (s_frames st ! 0)))"
    by (simp add: st_def sampleFrame_def sampleState_def)
  have j1: "1 < length (players (state (s_frames st ! 0)))"
    by (simp add: st_def sampleFrame_def sampleState_def)
  have fr: "s_frames st = [sampleFrame ''game_started'' 48 [samplePlayer ''a'' 0 3, samplePlayer ''b'' 0 2]]"
    by (simp add: st_def)
  have len: "length (s_frames (backfillFallbackHp 5 st)) = 1"
    using backfillFallbackHp_placeholder_only [OF h i0 j0] by (simp add: Let_def fr)
  have plen: "length (players (state (s_frames (backfillFallbackHp 5 st) ! 0))) = 2"
    using backfillFallbackHp_placeholder_only [OF h i0 j0]
    by (simp add: Let_def fr sampleFrame_def sampleState_def)
  have p0: "hp (players (state (s_frames (backfillFallbackHp 5 st) ! 0)) ! 0) = 5"
    using backfillFallbackHp_placeholder_only [OF h i0 j0]
    by (simp add: Let_def fr sampleFrame_def sampleState_def samplePlayer_def)
  have p1: "hp (players (state (s_frames (backfillFallbackHp 5 st) ! 0)) ! 1) = 2"
    using backfillFallbackHp_placeholder_only [OF h i0 j1]
    by (simp add: Let_def fr sampleFrame_def sampleState_def samplePlayer_def)
  have mx: "s_maxHpSeen (backfillFallbackHp 5 st) = 5"
    using backfillFallbackHp_placeholder_only [OF h i0 j0] by (simp add: Let_def)
  obtain f where f: "s_frames (backfillFallbackHp 5 st) = [f]"
    using len by (cases "s_frames (backfillFallbackHp 5 st)") simp_all
  obtain a b where ab: "players (state f) = [a, b]"
    using plen f
    by (cases "players (state f)"; simp; cases "tl (players (state f))"; simp)
  have "map (\<lambda>f. map hp (players (state f))) (s_frames (backfillFallbackHp 5 st)) = [[5, 2]]"
    using p0 p1 by (simp add: f ab)
  moreover have "map (\<lambda>f. map hp (players (state f))) (s_frames st) = [[3, 2]]"
    by (simp add: fr sampleFrame_def sampleState_def samplePlayer_def)
  ultimately show ?thesis
    using h mx unfolding Let_def st_def by simp
qed

text \<open>
  C5 (as amended). When the move phase finds no target frame, because the frame list is
  empty or the action's \<open>frameIndex\<close> is negative, it skips the interpolation, advances
  the action index by one and returns to idle with no active action.  A \<open>frameIndex\<close> past
  the end of a non-empty frame list is clamped to the last frame, and the move interpolates
  towards that frame.
\<close>

theorem movePhase_missing_target:
  "(replayFrames = [] \<or> frameIndex action < 0 \<longrightarrow>
      movePhase replayFrames fromState action pb =
        Skipped (pb\<lparr>actionIndex := actionIndex pb + 1, actionPhase := idle, activeAction := None\<rparr>))
   \<and> (replayFrames \<noteq> [] \<and> int (length replayFrames) \<le> frameIndex action \<longrightarrow>
      movePhase replayFrames fromState action pb =
        Interpolate fromState (state (last replayFrames)) (int (length replayFrames) - 1))"
proof (intro conjI impI)
  assume "replayFrames = [] \<or> frameIndex action < 0"
  then have "toState replayFrames action = None"
    by (auto simp add: toState_def targetIndex_def Let_def)
  then show "movePhase replayFrames fromState action pb =
        Skipped (pb\<lparr>actionIndex := actionIndex pb + 1, actionPhase := idle, activeAction := None\<rparr>)"
    by (simp add: movePhase_def)
next
  assume a: "replayFrames \<noteq> [] \<and> int (length replayFrames) \<le> frameIndex action"
  then have ti: "targetIndex replayFrames action = int (length replayFrames) - 1"
    by (simp add: targetIndex_def)
  have "nat (int (length replayFrames) - 1) = length replayFrames - 1"
    by simp
  then have "toState replayFrames action = Some (state (last replayFrames))"
    using a by (simp add: toState_def ti last_conv_nth)
  then show "movePhase replayFrames fromState action pb =
        Interpolate fromState (state (last replayFrames)) (int (length replayFrames) - 1)"
    by (simp add: movePhase_def ti)
qed

theorem movePhase_missing_target_witness:
  "movePhase [] (sampleState 48 []) (sampleAction ''a'' 3 forward 5)
       (samplePlayback (sampleAction ''a'' 3 forward 5))
     = Skipped \<lparr> actionIndex = 1, actionPhase = idle, activeAction = None \<rparr>
   \<and> int (length [sampleFrame ''player_moved'' 20 []]) \<le> frameIndex (sampleAction ''a'' 3 forward 5)
   \<and> movePhase [sampleFrame ''player_moved'' 20 []] (sampleState 48 [])
       (sampleAction ''a'' 3 forward 5) (samplePlayback (sampleAction ''a'' 3 forward 5))
     = Interpolate (sampleState 48 []) (sampleState 20 []) 0"
  using movePhase_missing_target [of "[]" "sampleAction ''a'' 3 forward 5" "sampleState 48 []"
          "samplePlayback (sampleAction ''a'' 3 forward 5)"]
        movePhase_missing_target [of "[sampleFrame ''player_moved'' 20 []]"
          "sampleAction ''a'' 3 forward 5" "sampleState 48 []"
          "samplePlayback (sampleAction ''a'' 3 forward 5)"]
  by (simp add: samplePlayback_def sampleAction_def sampleFrame_def)

text \<open>
  C5 as stated fails: with one known frame and an action whose \<open>frameIndex\<close> is 5, past
  the end of the list, the move phase does not skip; it interpolates towards frame 0.
\<close>

theorem movePhase_past_end_interpolates:
  "movePhase [sampleFrame ''player_moved'' 20 []] (sampleState 48 [])
       (sampleAction ''a'' 3 forward 5) (samplePlayback (sampleAction ''a'' 3 forward 5))
     = Interpolate (sampleState 48 []) (sampleState 20 []) 0"
  by (simp add: movePhase_def toState_def targetIndex_def sampleAction_def sampleFrame_def Let_def)

text \<open>
  C10. For every export on which \<open>parseLegacyExport\<close> returns a timeline, every action
  of the timeline has a \<open>frameIndex\<close> that is a valid index into the returned frame list,
  the frame at that index is labelled \<open>player_moved\<close>, and the \<open>frameIndex\<close> values are
  strictly increasing along the action list.
\<close>

theorem actions_point_to_move_frames:
  assumes "parseLegacyExport jsonParse input = Some timeline"
  shows "(\<forall>a \<in> set (actions timeline).
            0 \<le> frameIndex a \<and> frameIndex a < int (length (frames timeline))
            \<and> label (frames timeline ! nat (frameIndex a)) = js ''player_moved'')
         \<and> sorted_wrt (<) (map frameIndex (actions timeline))"
proof -
  obtain cur where ol: "fold nextOutline (coreMessagesOf input) ([], [], FALLBACK_TRACK)
      = (map (\<lambda>f. (label f, track_length (state f))) (frames timeline),
         map frameIndex (actions timeline), cur)"
    using parseLegacyExport_outline [OF assms] by blast
  have "goodOutline ([], [], FALLBACK_TRACK)"
    by (simp add: goodOutline_def)
  then have g: "goodOutline (map (\<lambda>f. (label f, track_length (state f))) (frames timeline),
         map frameIndex (actions timeline), cur)"
    using goodOutline_fold [of "([], [], FALLBACK_TRACK)" "coreMessagesOf input"] by (simp add: ol)
  have srt: "sorted_wrt (<) (map frameIndex (actions timeline))"
    using g by (simp add: goodOutline_def)
  have pt: "0 \<le> frameIndex a \<and> frameIndex a < int (length (frames timeline))
            \<and> label (frames timeline ! nat (frameIndex a)) = js ''player_moved''"
    if a: "a \<in> set (actions timeline)" for a
  proof -
    have i: "frameIndex a \<in> set (map frameIndex (actions timeline))"
      using a by simp
    have r: "0 \<le> frameIndex a \<and> frameIndex a < int (length (frames timeline))
        \<and> fst (map (\<lambda>f. (label f, track_length (state f))) (frames timeline) ! nat (frameIndex a))
            = js ''player_moved''"
      using g i unfolding goodOutline_def by auto
    then have "nat (frameIndex a) < length (frames timeline)" by linarith
    then show ?thesis using r by simp
  qed
  show ?thesis using srt pt by blast
qed

text \<open>
  C6 (as amended). Every positive track-size hint in the payload stream replaces the
  current track length, whether it is larger or smaller than the one before: each frame
  records the most recent positive hint seen up to and including the message that emitted
  it, or the fallback 48 when no hint has been seen.
\<close>

theorem frames_record_latest_hint:
  assumes "parseLegacyExport jsonParse input = Some timeline"
  shows "map (\<lambda>f. track_length (state f)) (frames timeline)
           = expectedTracks FALLBACK_TRACK (coreMessagesOf input)
         \<and> FALLBACK_TRACK = 48"
proof -
  obtain cur where ol: "fold nextOutline (coreMessagesOf input) ([], [], FALLBACK_TRACK)
      = (map (\<lambda>f. (label f, track_length (state f))) (frames timeline),
         map frameIndex (actions timeline), cur)"
    using parseLegacyExport_outline [OF assms] by blast
  have "map snd (map (\<lambda>f. (label f, track_length (state f))) (frames timeline))
      = expectedTracks FALLBACK_TRACK (coreMessagesOf input)"
    using fold_nextOutline_tracks [of "coreMessagesOf input" "[]" "[]" FALLBACK_TRACK]
    by (simp add: ol)
  then show ?thesis
    by (simp add: comp_def FALLBACK_TRACK_def)
qed

theorem actions_point_to_move_frames_witness:
  "(case parseLegacyExport (\<lambda>raw. None)
           (sampleExport [sampleMessage ''player_moved'' [(js ''agent_id'', JStr (js ''a''))],
                          sampleMessage ''turn_finished'' [],
                          sampleMessage ''player_moved'' [(js ''agent_id'', JStr (js ''b''))]]) of
      None \<Rightarrow> False
    | Some t \<Rightarrow>
        map frameIndex (actions t) = [0, 2]
        \<and> map label (frames t) = [js ''player_moved'', js ''turn_finished'', js ''player_moved'']
        \<and> sorted_wrt (<) (map frameIndex (actions t)))"
proof -
  define ex where "ex = sampleExport [sampleMessage ''player_moved'' [(js ''agent_id'', JStr (js ''a''))],
                          sampleMessage ''turn_finished'' [],
                          sampleMessage ''player_moved'' [(js ''agent_id'', JStr (js ''b''))]]"
  have "parseLegacyExport (\<lambda>raw. None) ex \<noteq> None"
    by (simp add: parseLegacyExport_None ex_def)
  then obtain t where t: "parseLegacyExport (\<lambda>raw. None) ex = Some t"
    by blast
  obtain cur where ol: "fold nextOutline (coreMessagesOf ex) ([], [], FALLBACK_TRACK)
      = (map (\<lambda>f. (label f, track_length (state f))) (frames t), map frameIndex (actions t), cur)"
    using parseLegacyExport_outline [OF t] by blast
  have ev: "fold nextOutline (coreMessagesOf ex) ([], [], FALLBACK_TRACK)
      = ([(js ''player_moved'', 48), (js ''turn_finished'', 48), (js ''player_moved'', 48)], [0, 2], 48)"
    by (simp add: ex_def nextOutline_def emittedLabel_sampleMessage hintedTrack_no_request
          FALLBACK_TRACK_def)
  have ix: "map frameIndex (actions t) = [0, 2]"
    using ol ev by simp
  have fr: "map (\<lambda>f. (label f, track_length (state f))) (frames t)
      = [(js ''player_moved'', 48), (js ''turn_finished'', 48), (js ''player_moved'', 48)]"
    using ol ev by simp
  have "map fst (map (\<lambda>f. (label f, track_length (state f))) (frames t))
      = map fst [(js ''player_moved'', 48::rat), (js ''turn_finished'', 48), (js ''player_moved'', 48)]"
    by (simp only: fr)
  then have lb: "map label (frames t) = [js ''player_moved'', js ''turn_finished'', js ''player_moved'']"
    by (simp add: comp_def)
  have "sorted_wrt (<) (map frameIndex (actions t))"
    using actions_point_to_move_frames [OF t] by blast
  then show ?thesis
    using ix lb by (simp add: t ex_def [symmetric])
qed


theorem frames_record_latest_hint_witness:
  "(case parseLegacyExport (\<lambda>raw. None)
           (sampleExport [sampleMessage ''turn_started'' [],
                          sampleMessage ''turn_started'' (sampleHint 20),
                          sampleMessage ''turn_finished'' [],
                          sampleMessage ''turn_started'' (sampleHint 30)]) of
      None \<Rightarrow> False
    | Some t \<Rightarrow> map (\<lambda>f. track_length (state f)) (frames t) = [48, 20, 20, 30])"
proof -
  define ex where "ex = sampleExport [sampleMessage ''turn_started'' [],
                          sampleMessage ''turn_started'' (sampleHint 20),
                          sampleMessage ''turn_finished'' [],
                          sampleMessage ''turn_started'' (sampleHint 30)]"
  have "parseLegacyExport (\<lambda>raw. None) ex \<noteq> None"
    by (simp add: parseLegacyExport_None ex_def)
  then obtain t where t: "parseLegacyExport (\<lambda>raw. None) ex = Some t"
    by blast
  have "expectedTracks FALLBACK_TRACK (coreMessagesOf ex) = [48, 20, 20, 30]"
    by (simp add: ex_def emittedLabel_sampleMessage hintedTrack_no_request hintedTrack_sampleHint
          FALLBACK_TRACK_def)
  then have "map (\<lambda>f. track_length (state f)) (frames t) = [48, 20, 20, 30]"
    using frames_record_latest_hint [OF t] by simp
  then show ?thesis
    by (simp add: t ex_def [symmetric])
qed

text \<open>
  C6 as stated fails: a hint of 20 followed by a hint of 10 gives two frames whose track
  lengths are 20 and 10; the later hint corrected the length downward.
\<close>

theorem track_length_can_decrease:
  "map_option (\<lambda>t. map (\<lambda>f. track_length (state f)) (frames t))
     (parseLegacyExport (\<lambda>raw. None)
        (sampleExport [sampleMessage ''turn_started'' (sampleHint 20),
                       sampleMessage ''turn_started'' (sampleHint 10)]))
   = Some [20, 10]"
proof -
  define ex where "ex = sampleExport [sampleMessage ''turn_started'' (sampleHint 20),
                       sampleMessage ''turn_started'' (sampleHint 10)]"
  have "parseLegacyExport (\<lambda>raw. None) ex \<noteq> None"
    by (simp add: parseLegacyExport_None ex_def)
  then obtain t where t: "parseLegacyExport (\<lambda>raw. None) ex = Some t"
    by blast
  obtain cur where ol: "fold nextOutline (coreMessagesOf ex) ([], [], FALLBACK_TRACK)
      = (map (\<lambda>f. (label f, track_length (state f))) (frames t), map frameIndex (actions t), cur)"
    using parseLegacyExport_outline [OF t] by blast
  have "map snd (map (\<lambda>f. (label f, track_length (state f))) (frames t))
      = expectedTracks FALLBACK_TRACK (coreMessagesOf ex)"
    using fold_nextOutline_tracks [of "coreMessagesOf ex" "[]" "[]" FALLBACK_TRACK]
    by (simp add: ol)
  moreover have "expectedTracks FALLBACK_TRACK (coreMessagesOf ex) = [20, 10]"
    by (simp add: ex_def emittedLabel_sampleMessage hintedTrack_sampleHint)
  ultimately have "map (\<lambda>f. track_length (state f)) (frames t) = [20, 10]"
    by (simp add: comp_def)
  then show ?thesis
    by (simp add: t ex_def [symmetric])
qed

lemmas eval_defs =
  parseLegacyExport_def seededState_def ensureCommentatorExists_def ensurePlayer_def initialState_def
  isCommentatorIdentity_def includes_str_def startsWith_def toLowerCase_def lower_unit_def trim_def
  is_space_def or_str_def commentator_name_def commentary_word_def commentator_standby_def
  FALLBACK_HP_def FALLBACK_TRACK_def seedPlayer_def processMessage_def compactTrackSize_def
  on_player_hit_def backfillFallbackHp_def upgradePlayer_def upgradeFrame_def upgradeFramePlayer_def
  pushFrame_def cloneState_def clonePlayer_def get_or_def clampPlayers_def repairPass_def
  sampleExport_def sampleMessage_def Let_def

text \<open>
  C1. In the returned timeline every player of every frame should have an hp between 0 and
  the ceiling \<open>maxHpSeen\<close>.  The upper bound holds, and the ceiling never decreases
  (\<open>ceiling_at_every_point\<close>, \<open>frames_hp_below_ceiling\<close>).  For the lower bound the
  code clamps the hp of the player registry after the loop, when every frame has already
  been copied from it, so the frames keep what the events said: for an export whose only
  event is a \<open>player_hit\<close> with \<open>lives = -1\<close>, the single frame of the timeline shows
  that player with hp \<open>-1\<close>.
\<close>

theorem frame_hp_negative:
  "map_option (\<lambda>t. map (\<lambda>f. map hp (players (state f))) (frames t))
     (parseLegacyExport (\<lambda>raw. None)
        (sampleExport [sampleMessage ''player_hit''
                         [(js ''agent_id'', JStr (js ''a'')), (js ''lives'', JNum (- 1))]]))
   = Some [[3, - 1]]"
  by (simp add: eval_defs js_def)



text \<open>
  C7 (as amended). The text that is sanitised is the \<^verbatim>\<open>message\<close> string of the raw text
  when the raw text parses as JSON with a string \<^verbatim>\<open>message\<close>, and the raw text itself
  otherwise.  For every such text with no run of three backticks and no \<^verbatim>\<open>"tool_calls"\<close>
  key followed by a colon (in any letter case), the result is the text with the white
  space at both ends trimmed.  A complete code-fenced block is stripped whether it is a
  tool call or not: when the block's body and the text around it have no backtick, and
  the text around it no such key, the result is the trimmed text around the block.  A
  trailing JSON object that holds the key, with at most white space after it, is
  stripped: when no opening brace comes before it and the text has no backtick, the
  result is the trimmed text before the object.
\<close>

theorem parseAgentMessage_sanitises:
  assumes "jsonParse raw = None \<and> input = raw
         \<or> (\<exists>parsed. jsonParse raw = Some parsed \<and> field parsed ''message'' = JStr input)
         \<or> (\<exists>parsed. jsonParse raw = Some parsed \<and> (\<forall>m. field parsed ''message'' \<noteq> JStr m)
               \<and> input = raw)"
  shows "(\<not> includes_str input fence \<and> \<not> has_tool_calls True input
            \<longrightarrow> parseAgentMessage jsonParse raw = trim input)
       \<and> (\<forall>pre body post.
            input = pre @ fence @ body @ fence @ post
            \<and> 96 \<notin> set pre \<and> 96 \<notin> set body \<and> 96 \<notin> set post
            \<and> \<not> has_tool_calls True (pre @ post)
            \<longrightarrow> parseAgentMessage jsonParse raw = trim (pre @ post))
       \<and> (\<forall>pre mid ws.
            input = pre @ [123] @ mid @ [125] @ ws
            \<and> 96 \<notin> set input \<and> 123 \<notin> set pre
            \<and> has_tool_calls True mid \<and> list_all is_space ws
            \<longrightarrow> parseAgentMessage jsonParse raw = trim pre)"
proof (intro conjI allI impI)
  have pm: "parseAgentMessage jsonParse raw = sanitize input"
    using assms by (rule parseAgentMessage_text)
  {
    assume h: "\<not> includes_str input fence \<and> \<not> has_tool_calls True input"
    have h1: "\<not> includes_str input fence" and h2: "\<not> has_tool_calls True input"
      using h by blast+
    show "parseAgentMessage jsonParse raw = trim input"
      unfolding pm by (rule sanitize_plain [OF h1 h2])
  }
  {
    fix pre body post
    assume h: "input = pre @ fence @ body @ fence @ post
            \<and> 96 \<notin> set pre \<and> 96 \<notin> set body \<and> 96 \<notin> set post
            \<and> \<not> has_tool_calls True (pre @ post)"
    have e: "input = pre @ fence @ body @ fence @ post"
      and h1: "96 \<notin> set pre" and h2: "96 \<notin> set body" and h3: "96 \<notin> set post"
      and h4: "\<not> has_tool_calls True (pre @ post)"
      using h by blast+
    show "parseAgentMessage jsonParse raw = trim (pre @ post)"
      unfolding pm e by (rule sanitize_fenced_block [OF h1 h2 h3 h4])
  }
  {
    fix pre mid ws
    assume h: "input = pre @ [123] @ mid @ [125] @ ws
            \<and> 96 \<notin> set input \<and> 123 \<notin> set pre
            \<and> has_tool_calls True mid \<and> list_all is_space ws"
    have e: "input = pre @ [123] @ mid @ [125] @ ws"
      and h2: "123 \<notin> set pre" and h3: "has_tool_calls True mid" and h4: "list_all is_space ws"
      using h by blast+
    have h1: "96 \<notin> set (pre @ [123] @ mid @ [125] @ ws)"
      using h unfolding e by blast
    show "parseAgentMessage jsonParse raw = trim pre"
      unfolding pm e by (rule sanitize_trailing_object [OF h1 h2 h3 h4])
  }
qed

theorem parseAgentMessage_sanitises_witness:
  "parseAgentMessage (\<lambda>raw. None) (js ''  move 3 steps (forward)  '') = js ''move 3 steps (forward)''
   \<and> parseAgentMessage (\<lambda>raw. Some (JObj [(js ''message'', JStr (js '' hi ''))]))
        ([123, 34] @ js ''message'' @ [34, 58, 34] @ js '' hi '' @ [34, 125]) = js ''hi''
   \<and> parseAgentMessage (\<lambda>raw. Some (JNum 5)) (js ''5'') = js ''5''
   \<and> parseAgentMessage (\<lambda>raw. None)
        (js ''ok '' @ fence @ (js ''json'' @ [123, 34] @ js ''tool_calls'' @ [34, 58] @ js ''[]''
           @ [125]) @ fence @ []) = js ''ok''
   \<and> parseAgentMessage (\<lambda>raw. None)
        (js ''go left '' @ [123] @ ([34] @ js ''tool_calls'' @ [34, 58] @ js '' []'') @ [125] @ [10])
        = js ''go left''"
proof -
  define plain where "plain = js ''  move 3 steps (forward)  ''"
  define envelope where "envelope = [123, 34] @ js ''message'' @ [34, 58, 34] @ js '' hi '' @ [34, 125]"
  define hi where "hi = js '' hi ''"
  define five where "five = js ''5''"
  define ok where "ok = js ''ok ''"
  define call where "call = js ''json'' @ [123, 34] @ js ''tool_calls'' @ [34, 58] @ js ''[]'' @ [125]"
  define go where "go = js ''go left ''"
  define arg where "arg = [34] @ js ''tool_calls'' @ [34, 58] @ js '' []''"
  have p1: "\<not> includes_str plain fence \<and> \<not> has_tool_calls True plain"
    by (simp add: plain_def sanitize_eval)
  have s1: "parseAgentMessage (\<lambda>raw. None) plain = trim plain"
    using parseAgentMessage_sanitises [where jsonParse = "\<lambda>raw. None" and raw = plain and input = plain]
      p1
    by simp
  have p2: "\<not> includes_str hi fence \<and> \<not> has_tool_calls True hi"
    by (simp add: hi_def sanitize_eval)
  have s2: "parseAgentMessage (\<lambda>raw. Some (JObj [(js ''message'', JStr hi)])) envelope = trim hi"
    using parseAgentMessage_sanitises [where jsonParse = "\<lambda>raw. Some (JObj [(js ''message'', JStr hi)])"
        and raw = envelope and input = hi]
      p2
    by simp
  have p3: "\<not> includes_str five fence \<and> \<not> has_tool_calls True five"
    by (simp add: five_def sanitize_eval)
  have s3: "parseAgentMessage (\<lambda>raw. Some (JNum 5)) five = trim five"
    using parseAgentMessage_sanitises [where jsonParse = "\<lambda>raw. Some (JNum 5)"
        and raw = five and input = five]
      p3
    by simp
  have p4: "96 \<notin> set ok \<and> 96 \<notin> set call \<and> 96 \<notin> set [] \<and> \<not> has_tool_calls True (ok @ [])"
    by (simp add: ok_def call_def sanitize_eval)
  have s4: "parseAgentMessage (\<lambda>raw. None) (ok @ fence @ call @ fence @ []) = trim (ok @ [])"
    using parseAgentMessage_sanitises [where jsonParse = "\<lambda>raw. None"
        and raw = "ok @ fence @ call @ fence @ []" and input = "ok @ fence @ call @ fence @ []"]
      p4
    by blast
  have p5: "96 \<notin> set (go @ [123] @ arg @ [125] @ [10]) \<and> 123 \<notin> set go
      \<and> has_tool_calls True arg \<and> list_all is_space [10]"
    by (simp add: go_def arg_def sanitize_eval)
  have s5: "parseAgentMessage (\<lambda>raw. None) (go @ [123] @ arg @ [125] @ [10]) = trim go"
    using parseAgentMessage_sanitises [where jsonParse = "\<lambda>raw. None"
        and raw = "go @ [123] @ arg @ [125] @ [10]" and input = "go @ [123] @ arg @ [125] @ [10]"]
      p5
    by blast
  have t: "trim plain = js ''move 3 steps (forward)''" "trim hi = js ''hi''" "trim five = js ''5''"
      "trim (ok @ []) = js ''ok''" "trim go = js ''go left''"
    by (simp_all add: plain_def hi_def five_def ok_def go_def trim_def is_space_def js_def)
  show ?thesis
    using s1 s2 s3 s4 s5
    unfolding t
    unfolding plain_def envelope_def hi_def five_def ok_def call_def go_def arg_def
    by blast
qed

text \<open>
  C7 as stated fails: an ordinary fenced block, with no tool call in the text, is removed.
\<close>

theorem sanitize_drops_ordinary_block:
  "parseAgentMessage (\<lambda>raw. None) (js ''run '' @ fence @ js ''ls -l'' @ fence @ js '' now'')
       = js ''run  now''
   \<and> sanitize (js ''run '' @ fence @ js ''ls -l'' @ fence @ js '' now'') = js ''run  now''
   \<and> trim (js ''run '' @ fence @ js ''ls -l'' @ fence @ js '' now'')
       = js ''run '' @ fence @ js ''ls -l'' @ fence @ js '' now''
   \<and> \<not> has_tool_calls True (js ''run '' @ fence @ js ''ls -l'' @ fence @ js '' now'')"
  by (simp add: parseAgentMessage_def sanitize_eval)

text \<open>
  C8. The hold time of an utterance of normal dialogue, before the playback speed divides
  it, is \<open>min 9000 (max 2200 (1400 + 36 * length))\<close> milliseconds exactly, for every
  message: the multiplications by the pacing constants 1.25 and 0.8, carried out on
  doubles, give the clamp value back.  (The default multiplier of the source is 1.)
\<close>

theorem speechDurationMs_normal:
  "speechDurationMs msg 1 = of_int (min 9000 (max 2200 (1400 + 36 * int (length msg))))
   \<and> DIALOGUE_TIME_SCALE = 5 / 4
   \<and> SPEECH_TIME_COMPENSATION = 3602879701896397 / 2 ^ 52"
proof -
  define k where "k = max 2200 (min 9000 (1400 + 36 * int (length msg)))"
  have k1: "2200 \<le> k" and k2: "k \<le> 9000"
    by (simp_all add: k_def)
  have kk: "k = min 9000 (max 2200 (1400 + 36 * int (length msg)))"
    by (simp add: k_def max_def min_def)
  have s1: "max 2200 (min 9000 (js_add 1400 (js_mul (of_nat (length msg)) 36))) = (of_int k :: rat)"
    unfolding k_def by (rule clamp_sum)
  have s2: "js_mul (of_int k) DIALOGUE_TIME_SCALE = of_int (5 * k) / 2 ^ 2"
  proof -
    have e: "(of_int k :: rat) * (5 / 4) = of_int (5 * k) / 2 ^ 2" by simp
    have "(1::rat) \<le> of_int (5 * k) / 2 ^ 2" using k1 by simp
    then have "to_double (of_int (5 * k) / 2 ^ 2) = of_int (5 * k) / 2 ^ 2"
      using k2 by (intro to_double_dyadic) simp_all
    then show ?thesis
      unfolding js_mul_def time_scale_exact e .
  qed
  have s3: "js_mul (of_int (5 * k) / 2 ^ 2) SPEECH_TIME_COMPENSATION = of_int k"
  proof -
    have "of_int (5 * k) / 2 ^ 2 * (3602879701896397 / 2 ^ 52) = (of_int k + of_int k / 2 ^ 54 :: rat)"
      by (simp add: field_simps)
    moreover have "to_double (of_int k + of_int k / 2 ^ 54) = of_int k"
      using k1 k2 by (intro to_double_above) simp_all
    ultimately show ?thesis
      by (simp only: js_mul_def speech_compensation_value)
  qed
  have s4: "js_mul (of_int k) (max 1 1) = of_int k"
  proof -
    have "to_double (of_int k) = of_int k"
      using k1 k2 by (intro to_double_int) simp_all
    then show ?thesis by (simp add: js_mul_def)
  qed
  have "speechDurationMs msg 1 = of_int k"
    unfolding speechDurationMs_def s1 s2 s3 s4 ..
  then show ?thesis
    using time_scale_exact speech_compensation_value by (simp only: kk simp_thms)
qed

end
